theory Spec2Isabelle
  imports Complex_Main "HOL-Library.Sublist"
begin

section \<open>Python slicing\<close>

text \<open>
  \<^verbatim>\<open>s[i:j]\<close> on a sequence of length \<open>n\<close>: a negative bound counts from the end, and
  every bound is clamped into \<open>0..n\<close>; the slice is empty when the bounds cross.
\<close>

definition py_index :: "int \<Rightarrow> nat \<Rightarrow> nat" where
  "py_index i n = (if i < 0 then nat (i + int n) else min (nat i) n)"

definition py_slice :: "'a list \<Rightarrow> int \<Rightarrow> int \<Rightarrow> 'a list" where
  "py_slice xs i j =
     (let a = py_index i (length xs); b = py_index j (length xs)
      in take (b - a) (drop a xs))"

section \<open>The chunk splitter (scraper-agent.py, \<open>chunk_html\<close>)\<close>

text \<open>
  \<^verbatim>\<open>
  def chunk_html(html_content, size, overlap):
      chunks = []
      start = 0
      while start < len(html_content):
          end = start + size
          chunks.append(html_content[start:end])
          start += size - overlap
      return chunks
  \<close>
  The page is a sequence of characters (code points); the splitter only counts and
  slices them, so the model is polymorphic in the element type. \<open>size\<close> and
  \<open>overlap\<close> are Python integers. The loop has no bound of its own: \<open>None\<close> is
  the loop that never returns.
\<close>

partial_function (option) chunk_loop ::
  "'a list \<Rightarrow> int \<Rightarrow> int \<Rightarrow> int \<Rightarrow> 'a list list \<Rightarrow> 'a list list option" where
  "chunk_loop html_content size' overlap start chunks =
     (if start < int (length html_content)
      then chunk_loop html_content size' overlap (start + (size' - overlap))
             (chunks @ [py_slice html_content start (start + size')])
      else Some chunks)"

declare chunk_loop.simps [code]

definition chunk_html :: "'a list \<Rightarrow> int \<Rightarrow> int \<Rightarrow> 'a list list option" where
  "chunk_html html_content size' overlap = chunk_loop html_content size' overlap 0 []"

text \<open>
  The number of iterations of the loop from offset \<open>start\<close>, for a positive step
  \<open>d = size - overlap\<close> and \<open>r = len(html_content) - start\<close> characters left: the
  ceiling of \<open>r / d\<close>, and none when nothing is left.
\<close>

definition chunk_count :: "int \<Rightarrow> int \<Rightarrow> nat" where
  "chunk_count r d = nat ((r + d - 1) div d)"

section \<open>The response parser (scraper-agent.py and \<^verbatim>\<open>universal_scraper_agent.py\<close>)\<close>

text \<open>
  What \<^verbatim>\<open>json.loads\<close> returns: \<^verbatim>\<open>None\<close>, a bool, an int, a float, a str, a list or
  a dict. A dict is the list of its items in iteration order. A float is kept as the
  real number it denotes.
\<close>

datatype json =
    JNull
  | JBool bool
  | JInt int
  | JFloat real
  | JStr string
  | JArr "json list"
  | JObj "(string \<times> json) list"

text \<open>
  The exceptions the parsing code and \<^verbatim>\<open>urlparse\<close> can meet; all of them are
  \<^verbatim>\<open>Exception\<close>s.
\<close>

datatype py_exception = JSONDecodeError | RecursionError | TypeError | ValueError

text \<open>\<^verbatim>\<open>isinstance(value, list)\<close>.\<close>

fun is_list :: "json \<Rightarrow> bool" where
  "is_list (JArr _) = True"
| "is_list _ = False"

text \<open>
  \<^verbatim>\<open>all_selectors\<close> is a Python set. Adding a list or a dict raises \<^verbatim>\<open>TypeError\<close>
  (unhashable); any other value is added unless the set holds an equal one, where
  Python compares bools, ints and floats by their numeric value. The set is modelled by
  the list of its members in the order they were added; Python iterates a set in an
  order of its own, and nothing below depends on the order.
\<close>

fun hashable :: "json \<Rightarrow> bool" where
  "hashable (JArr _) = False"
| "hashable (JObj _) = False"
| "hashable _ = True"

fun num_value :: "json \<Rightarrow> real option" where
  "num_value (JBool b) = Some (if b then 1 else 0)"
| "num_value (JInt n) = Some (of_int n)"
| "num_value (JFloat r) = Some r"
| "num_value _ = None"

definition py_eq :: "json \<Rightarrow> json \<Rightarrow> bool" where
  "py_eq a b =
     (case (num_value a, num_value b) of
        (Some x, Some y) \<Rightarrow> x = y
      | (None, None) \<Rightarrow> a = b
      | _ \<Rightarrow> False)"

definition py_set_add :: "json \<Rightarrow> json list \<Rightarrow> json list" where
  "py_set_add x s = (if list_ex (py_eq x) s then s else s @ [x])"

definition set_add :: "json \<Rightarrow> json list \<Rightarrow> py_exception + json list" where
  "set_add x s = (if hashable x then Inr (py_set_add x s) else Inl TypeError)"

text \<open>
  \<^verbatim>\<open>re.search\<close> with the pattern of both files: an opening brace, any characters
  (greedy, newlines included) and a closing brace, or else the same with square
  brackets. The search takes the leftmost position where one of the two alternatives
  matches, the brace alternative first, and the match runs to the last closing
  character of its kind.
\<close>

definition upto_last :: "char \<Rightarrow> string \<Rightarrow> string" where
  "upto_last c s = rev (dropWhile (\<lambda>x. x \<noteq> c) (rev s))"

fun json_match :: "string \<Rightarrow> string option" where
  "json_match [] = None"
| "json_match (c # cs) =
     (if c = CHR ''{'' \<and> CHR ''}'' \<in> set cs then Some (c # upto_last CHR ''}'' cs)
      else if c = CHR ''['' \<and> CHR '']'' \<in> set cs then Some (c # upto_last CHR '']'' cs)
      else json_match cs)"

text \<open>
  \<^verbatim>\<open>
  for key, value in data.items():
      if isinstance(value, list):
          selectors_list = value
          break
  \<close>
\<close>

fun first_list_value :: "(string \<times> json) list \<Rightarrow> json list" where
  "first_list_value [] = []"
| "first_list_value ((key, JArr l) # items) = l"
| "first_list_value ((key, v) # items) = first_list_value items"

subsection \<open>scraper-agent.py, the loop of \<open>detect_selectors_in_chunks\<close>\<close>

text \<open>
  \<^verbatim>\<open>
  all_selectors = set()
  for result_str in api_responses:
      if not result_str:
          continue
      try:
          json_match = re.search(..., result_str)
          if not json_match:
              continue
          data = json.loads(json_match.group(0))
          selectors_list = []
          if isinstance(data, dict):
              for key, value in data.items():
                  if isinstance(value, list):
                      selectors_list = value
                      break
          elif isinstance(data, list):
              selectors_list = data
          for selector in selectors_list:
              all_selectors.add(selector)
      except Exception as e:
          main_logger.error(...)
  return list(all_selectors)
  \<close>
  \<^verbatim>\<open>json.loads\<close> is the standard library's decoder and a parameter \<open>loads\<close> of the
  model. A response is \<open>None\<close> when \<open>call_llm_api\<close> failed. The body of the
  \<^verbatim>\<open>try\<close> changes the set in place, so it returns the exception it raised, if
  any, together with the set as it stands then.
\<close>

definition selectors_list :: "json \<Rightarrow> json list" where
  "selectors_list data =
     (case data of
        JObj items \<Rightarrow> first_list_value items
      | JArr l \<Rightarrow> l
      | _ \<Rightarrow> [])"

fun add_selectors :: "json list \<Rightarrow> json list \<Rightarrow> py_exception option \<times> json list" where
  "add_selectors [] all_selectors = (None, all_selectors)"
| "add_selectors (selector # rest) all_selectors =
     (case set_add selector all_selectors of
        Inl e \<Rightarrow> (Some e, all_selectors)
      | Inr s \<Rightarrow> add_selectors rest s)"

definition chunk_response_body ::
  "(string \<Rightarrow> py_exception + json) \<Rightarrow> string \<Rightarrow> json list \<Rightarrow>
     py_exception option \<times> json list" where
  "chunk_response_body loads result_str all_selectors =
     (case json_match result_str of
        None \<Rightarrow> (None, all_selectors)
      | Some json_str \<Rightarrow>
          (case loads json_str of
             Inl e \<Rightarrow> (Some e, all_selectors)
           | Inr data \<Rightarrow> add_selectors (selectors_list data) all_selectors))"

text \<open>
  One iteration of the loop. Its result type has room for an exception that leaves the
  iteration; the handler catches every \<^verbatim>\<open>Exception\<close> and logs it.
\<close>

definition chunk_response ::
  "(string \<Rightarrow> py_exception + json) \<Rightarrow> string option \<Rightarrow> json list \<Rightarrow>
     py_exception + json list" where
  "chunk_response loads result_str all_selectors =
     (case result_str of
        None \<Rightarrow> Inr all_selectors
      | Some r \<Rightarrow>
          if r = [] then Inr all_selectors
          else (case chunk_response_body loads r all_selectors of
                  (None, s) \<Rightarrow> Inr s
                | (Some e, s) \<Rightarrow> Inr s))"

fun reduce_responses ::
  "(string \<Rightarrow> py_exception + json) \<Rightarrow> string option list \<Rightarrow> json list \<Rightarrow>
     py_exception + json list" where
  "reduce_responses loads [] all_selectors = Inr all_selectors"
| "reduce_responses loads (result_str # rest) all_selectors =
     (case chunk_response loads result_str all_selectors of
        Inl e \<Rightarrow> Inl e
      | Inr s \<Rightarrow> reduce_responses loads rest s)"

definition CHUNK_SIZE :: int where
  "CHUNK_SIZE = 4500"

definition CHUNK_OVERLAP :: int where
  "CHUNK_OVERLAP = 400"

text \<open>
  The whole function: the page is split, \<open>call_llm_api\<close> (the inference service, a
  parameter) answers each chunk, and the answers are reduced to one set.
\<close>

definition detect_selectors_in_chunks ::
  "(string \<Rightarrow> py_exception + json) \<Rightarrow> (string \<Rightarrow> string option) \<Rightarrow> string \<Rightarrow>
     (py_exception + json list) option" where
  "detect_selectors_in_chunks loads call_llm_api full_html =
     (case chunk_html full_html CHUNK_SIZE CHUNK_OVERLAP of
        None \<Rightarrow> None
      | Some html_chunks \<Rightarrow> Some (reduce_responses loads (map call_llm_api html_chunks) []))"

subsection \<open>\<^verbatim>\<open>universal_scraper_agent.py\<close>, \<open>detect_selectors\<close> after the inference call\<close>

text \<open>
  \<^verbatim>\<open>
  if not result_str:
      return []
  try:
      json_match = re.search(..., result_str)
      if not json_match:
          return []
      data = json.loads(json_match.group(0))
      if isinstance(data, dict):
          for key, value in data.items():
              if isinstance(value, list):
                  return value
          return []
      elif isinstance(data, list):
          return data
  except json.JSONDecodeError as e:
      logger.error(...)
  except Exception as e:
      logger.error(...)
  return []
  \<close>
\<close>

definition detect_selectors_body ::
  "(string \<Rightarrow> py_exception + json) \<Rightarrow> string \<Rightarrow> py_exception + json list" where
  "detect_selectors_body loads result_str =
     (case json_match result_str of
        None \<Rightarrow> Inr []
      | Some json_str \<Rightarrow>
          (case loads json_str of
             Inl e \<Rightarrow> Inl e
           | Inr data \<Rightarrow>
               (case data of
                  JObj items \<Rightarrow> Inr (first_list_value items)
                | JArr l \<Rightarrow> Inr l
                | _ \<Rightarrow> Inr [])))"

definition detect_selectors ::
  "(string \<Rightarrow> py_exception + json) \<Rightarrow> string \<Rightarrow> py_exception + json list" where
  "detect_selectors loads result_str =
     (if result_str = [] then Inr []
      else (case detect_selectors_body loads result_str of
              Inl e \<Rightarrow> Inr []
            | Inr v \<Rightarrow> Inr v))"

text \<open>
  What \<^verbatim>\<open>json.loads\<close> returns on the four texts the examples below use; every other
  text is rejected here.
\<close>

definition loads_example :: "string \<Rightarrow> py_exception + json" where
  \<open>loads_example s =
     (if s = ''{"selectors": ["a.btn", "div#x"]}''
        then Inr (JObj [(''selectors'', JArr [JStr ''a.btn'', JStr ''div#x''])])
      else if s = ''{"count": 2}'' then Inr (JObj [(''count'', JInt 2)])
      else if s = ''[[], "a.btn"]'' then Inr (JArr [JArr [], JStr ''a.btn''])
      else if s = ''[1, "a.btn"]'' then Inr (JArr [JInt 1, JStr ''a.btn''])
      else Inl JSONDecodeError)\<close>

section \<open>The crawl loop (scraper-agent.py, \<open>main\<close> and \<open>download_pdf_concurrently\<close>)\<close>

text \<open>
  The state of \<open>main\<close>: its three collections, the records this run has appended to
  \<^verbatim>\<open>download_log.csv\<close> (a document URL and the page it was found on, under the
  header \<^verbatim>\<open>PDF_URL,SOURCE_URL\<close>), and two traces of what the run did to the outside
  world: every \<^verbatim>\<open>session.get\<close> with the page it came from and
  whether the download succeeded, and every URL taken from the queue with what became
  of it.
\<close>

datatype visit = Skipped | Failed | Loaded

record crawl_state =
  visited_pages :: "string set"
  downloaded_pdf_urls :: "string set"
  queue :: "string list"
  download_log :: "(string \<times> string) list"
  fetched :: "(string \<times> string \<times> bool) list"
  dequeued :: "(string \<times> visit) list"

text \<open>
  What the browser and the network show during one iteration of the loop.
  \<^item> \<open>NavigationError\<close>: \<^verbatim>\<open>driver.get(url)\<close> raises.
  \<^item> \<open>PageError\<close>: the page loads, and a later statement raises before any download
    is dispatched (reading or saving the page, the selector inference, listing the PDF
    anchors).
  \<^item> \<open>Page pdf_hrefs fetch_ok links\<close>: the \<^verbatim>\<open>href\<close>s of the anchors the browser
    returns for the PDF selector, whether fetching and saving a given document
    succeeds, and the anchors of the page for the link loop.
  An anchor of the link loop gives its \<^verbatim>\<open>href\<close> (\<open>None\<close> when it has none), or
  raises (\<open>LinkError\<close>, which also stands for \<^verbatim>\<open>find_elements\<close> raising).
\<close>

datatype link = Href "string option" | LinkError

datatype page =
    NavigationError
  | PageError
  | Page "string option list" "string \<Rightarrow> bool" "link list"

text \<open>
  \<^verbatim>\<open>
  async def download_pdf_concurrently(session, pdf_url, source_url):
      try:
          async with session.get(pdf_url, timeout=60) as response:
              response.raise_for_status()
              content = await response.read()
              ...
              async with aiofiles.open(file_path, 'wb') as f:
                  await f.write(content)
              main_logger.info(f"SUCCESS downloading {pdf_url}")
              download_logger.info(f"{pdf_url},{source_url}")
              return pdf_url
      except Exception as e:
          main_logger.error(f"FAILED downloading {pdf_url}: {e}")
          return None
  \<close>
  \<open>fetch_ok pdf_url\<close> says whether everything up to the write succeeds. Only
  \<open>download_logger\<close> writes to the audit file.
\<close>

definition download_pdf_concurrently ::
  "(string \<Rightarrow> bool) \<Rightarrow> string \<Rightarrow> string \<Rightarrow> crawl_state \<Rightarrow> crawl_state" where
  "download_pdf_concurrently fetch_ok pdf_url source_url s =
     (let s1 = s\<lparr>fetched := fetched s @ [(pdf_url, source_url, fetch_ok pdf_url)]\<rparr>
      in if fetch_ok pdf_url
         then s1\<lparr>download_log := download_log s1 @ [(pdf_url, source_url)]\<rparr>
         else s1)"

text \<open>
  \<^verbatim>\<open>
  pdf_links_on_page = set()
  for element in pdf_elements:
      href = element.get_attribute('href')
      if href:
          pdf_links_on_page.add(href)
  \<close>
  A set of strings, as the list of its members in the order they were added; the
  order in which Python iterates it is not relied upon.
\<close>

fun pdf_links :: "string option list \<Rightarrow> string list \<Rightarrow> string list" where
  "pdf_links [] pdf_links_on_page = pdf_links_on_page"
| "pdf_links (None # rest) pdf_links_on_page = pdf_links rest pdf_links_on_page"
| "pdf_links (Some href # rest) pdf_links_on_page =
     (if href \<noteq> [] \<and> href \<notin> set pdf_links_on_page
      then pdf_links rest (pdf_links_on_page @ [href])
      else pdf_links rest pdf_links_on_page)"

text \<open>
  \<^verbatim>\<open>
  download_tasks = []
  for pdf_url in pdf_links_on_page:
      if pdf_url not in downloaded_pdf_urls:
          downloaded_pdf_urls.add(pdf_url)
          task = download_pdf_concurrently(session, pdf_url, url)
          download_tasks.append(task)
  \<close>
  A task is a coroutine that has not started; it is kept as the URL it will fetch.
\<close>

fun download_tasks :: "string list \<Rightarrow> string set \<Rightarrow> string list \<Rightarrow> string set \<times> string list" where
  "download_tasks [] downloaded tasks = (downloaded, tasks)"
| "download_tasks (pdf_url # rest) downloaded tasks =
     (if pdf_url \<notin> downloaded
      then download_tasks rest (insert pdf_url downloaded) (tasks @ [pdf_url])
      else download_tasks rest downloaded tasks)"

text \<open>
  \<^verbatim>\<open>await asyncio.gather(*download_tasks)\<close>: every task runs to its end before the loop
  goes on. The tasks are taken to finish in the order they were created; the lines of
  one page's downloads may reach the log in any other order.
\<close>

definition gather :: "(string \<Rightarrow> bool) \<Rightarrow> string \<Rightarrow> string list \<Rightarrow> crawl_state \<Rightarrow> crawl_state" where
  "gather fetch_ok url tasks s =
     foldl (\<lambda>s pdf_url. download_pdf_concurrently fetch_ok pdf_url url s) s tasks"

text \<open>
  \<^verbatim>\<open>
  for link in link_elements:
      href = link.get_attribute('href')
      if href and href.startswith('http'):
          if urlparse(href).netloc == base_domain:
              if href not in visited_pages and href not in queue:
                  queue.append(href)
  \<close>
  \<^verbatim>\<open>urlparse(href).netloc\<close> is the standard library's and a parameter \<open>netloc\<close> of the
  model; it can raise \<^verbatim>\<open>ValueError\<close>. An exception leaves the loop with the queue as
  it stands.
\<close>

fun enqueue_links ::
  "(string \<Rightarrow> py_exception + string) \<Rightarrow> string \<Rightarrow> link list \<Rightarrow> string set \<Rightarrow> string list \<Rightarrow>
     string list" where
  "enqueue_links netloc base_domain [] visited q = q"
| "enqueue_links netloc base_domain (LinkError # rest) visited q = q"
| "enqueue_links netloc base_domain (Href None # rest) visited q =
     enqueue_links netloc base_domain rest visited q"
| "enqueue_links netloc base_domain (Href (Some href) # rest) visited q =
     (if href \<noteq> [] \<and> prefix ''http'' href then
        (case netloc href of
           Inl e \<Rightarrow> q
         | Inr n \<Rightarrow>
             if n = base_domain then
               if href \<notin> visited \<and> href \<notin> set q
               then enqueue_links netloc base_domain rest visited (q @ [href])
               else enqueue_links netloc base_domain rest visited q
             else enqueue_links netloc base_domain rest visited q)
      else enqueue_links netloc base_domain rest visited q)"

text \<open>
  The part of an iteration that follows \<^verbatim>\<open>visited_pages.add(url)\<close>, for a page
  that gets as far as the downloads.
\<close>

definition process_page ::
  "(string \<Rightarrow> py_exception + string) \<Rightarrow> string \<Rightarrow> string \<Rightarrow>
     string option list \<Rightarrow> (string \<Rightarrow> bool) \<Rightarrow> link list \<Rightarrow> crawl_state \<Rightarrow> crawl_state" where
  "process_page netloc base_domain url pdf_hrefs fetch_ok links s =
     (let pdf_links_on_page = pdf_links pdf_hrefs [];
          (downloaded, tasks) = download_tasks pdf_links_on_page (downloaded_pdf_urls s) [];
          s1 = gather fetch_ok url tasks (s\<lparr>downloaded_pdf_urls := downloaded\<rparr>)
      in s1\<lparr>queue := enqueue_links netloc base_domain links (visited_pages s1) (queue s1)\<rparr>)"

text \<open>
  \<^verbatim>\<open>
  while queue:
      url = queue.popleft()
      if url in visited_pages:
          continue
      try:
          driver.get(url)
          visited_pages.add(url)
          ...
      except Exception as e:
          main_logger.error(f"A critical error occurred while processing {url}: {e}")
  \<close>
  One iteration, given what the outside world shows during it. With an empty queue the
  loop has ended and the state stays as it is.
\<close>

definition crawl_step ::
  "(string \<Rightarrow> py_exception + string) \<Rightarrow> string \<Rightarrow> page \<Rightarrow> crawl_state \<Rightarrow> crawl_state" where
  "crawl_step netloc base_domain p s =
     (case queue s of
        [] \<Rightarrow> s
      | url # rest \<Rightarrow>
          if url \<in> visited_pages s
          then s\<lparr>queue := rest, dequeued := dequeued s @ [(url, Skipped)]\<rparr>
          else (case p of
                  NavigationError \<Rightarrow>
                    s\<lparr>queue := rest, dequeued := dequeued s @ [(url, Failed)]\<rparr>
                | PageError \<Rightarrow>
                    s\<lparr>queue := rest, dequeued := dequeued s @ [(url, Loaded)],
                      visited_pages := insert url (visited_pages s)\<rparr>
                | Page pdf_hrefs fetch_ok links \<Rightarrow>
                    process_page netloc base_domain url pdf_hrefs fetch_ok links
                      (s\<lparr>queue := rest, dequeued := dequeued s @ [(url, Loaded)],
                         visited_pages := insert url (visited_pages s)\<rparr>)))"

definition START_URL :: string where
  "START_URL = ''https://www.govinfo.gov/app/collection/cfr/''"

definition initial_state :: crawl_state where
  "initial_state =
     \<lparr>visited_pages = {}, downloaded_pdf_urls = {}, queue = [START_URL],
      download_log = [], fetched = [], dequeued = []\<rparr>"

text \<open>
  The state after the iterations that a list of pages describes. Every state the loop
  can reach is \<open>crawl netloc base_domain pages\<close> for some \<open>pages\<close>; \<open>main\<close> runs it with
  the network location of the start URL.
\<close>

definition crawl ::
  "(string \<Rightarrow> py_exception + string) \<Rightarrow> string \<Rightarrow> page list \<Rightarrow> crawl_state" where
  "crawl netloc base_domain pages =
     foldl (\<lambda>s p. crawl_step netloc base_domain p s) initial_state pages"

definition main :: "(string \<Rightarrow> py_exception + string) \<Rightarrow> page list \<Rightarrow> py_exception + crawl_state" where
  "main netloc pages =
     (case netloc START_URL of
        Inl e \<Rightarrow> Inl e
      | Inr base_domain \<Rightarrow> Inr (crawl netloc base_domain pages))"

text \<open>
  \<^verbatim>\<open>urlparse(url).netloc\<close> on a URL of the plain form \<^verbatim>\<open>scheme://host/path\<close>: what
  stands between the two slashes after the scheme and the next slash, question mark or
  hash. The examples below use it.
\<close>

definition netloc_plain :: "string \<Rightarrow> py_exception + string" where
  "netloc_plain url =
     (case dropWhile (\<lambda>c. c \<noteq> CHR '':'') url of
        c1 # c2 # c3 # rest \<Rightarrow>
          if c2 = CHR ''/'' \<and> c3 = CHR ''/''
          then Inr (takeWhile (\<lambda>c. c \<noteq> CHR ''/'' \<and> c \<noteq> CHR ''?'' \<and> c \<noteq> CHR ''#'') rest)
          else Inr []
      | _ \<Rightarrow> Inr [])"

text \<open>
  When a URL is in \<open>dequeued\<close> as loaded, it is not dequeued again after that.
\<close>

fun no_revisit :: "(string \<times> visit) list \<Rightarrow> bool" where
  "no_revisit [] = True"
| "no_revisit ((url, v) # rest) =
     ((v \<noteq> Loaded \<or> url \<notin> fst ` set rest) \<and> no_revisit rest)"

text \<open>
  Two invariants of the loop. The frontier: the queue holds no URL twice and none that
  is visited, the visited set is the set of URLs that were loaded, a loaded URL is not
  dequeued again, and the \<^verbatim>\<open>continue\<close> branch is never taken. The downloads: no URL
  is fetched twice, the fetched URLs are the downloaded set, and the log holds the
  successful fetches.
\<close>

definition frontier_inv :: "crawl_state \<Rightarrow> bool" where
  "frontier_inv s =
     (distinct (queue s) \<and> set (queue s) \<inter> visited_pages s = {} \<and>
      visited_pages s = {u. (u, Loaded) \<in> set (dequeued s)} \<and>
      no_revisit (dequeued s) \<and> Skipped \<notin> snd ` set (dequeued s))"

definition successes :: "(string \<times> string \<times> bool) list \<Rightarrow> (string \<times> string) list" where
  "successes fs = map (\<lambda>(u, src, ok). (u, src)) (filter (\<lambda>(u, src, ok). ok) fs)"

definition download_inv :: "crawl_state \<Rightarrow> bool" where
  "download_inv s =
     (distinct (map fst (fetched s)) \<and> fst ` set (fetched s) = downloaded_pdf_urls s \<and>
      download_log s = successes (fetched s))"

text \<open>
  Runs for the examples below. In \<open>revisit_pages\<close> the start page links to \<open>/b\<close> and
  \<open>/c\<close>, the navigation to \<open>/b\<close> fails, \<open>/c\<close> links to \<open>/b\<close> again, and \<open>/b\<close> then loads.
  In \<open>pdf_pages\<close> the start page and \<open>/b\<close> both show the same two documents, one of which
  cannot be fetched, and the start page links to one of them.
\<close>

definition revisit_pages :: "page list" where
  "revisit_pages =
     [Page [] (\<lambda>u. True)
        [Href (Some ''https://www.govinfo.gov/b''), Href (Some ''https://www.govinfo.gov/c'')],
      NavigationError,
      Page [] (\<lambda>u. True) [Href (Some ''https://www.govinfo.gov/b'')]]"

definition pdf_pages :: "page list" where
  "pdf_pages =
     [Page [Some ''https://www.govinfo.gov/a.pdf'', Some ''https://www.govinfo.gov/x.pdf'']
        (\<lambda>u. u \<noteq> ''https://www.govinfo.gov/x.pdf'')
        [Href (Some ''https://www.govinfo.gov/b''), Href (Some ''https://www.govinfo.gov/a.pdf'')],
      Page [Some ''https://www.govinfo.gov/x.pdf'', Some ''https://www.govinfo.gov/a.pdf'']
        (\<lambda>u. True) []]"

section \<open>Properties of the chunk splitter\<close>

lemma chunk_count_le0: "0 < d \<Longrightarrow> r \<le> 0 \<Longrightarrow> chunk_count r d = 0"
  unfolding chunk_count_def
  by (smt (verit, best) div_pos_neg_trivial nat_le_0 div_by_0 pos_imp_zdiv_neg_iff zdiv_eq_0_iff)

lemma chunk_count_step: "0 < d \<Longrightarrow> 0 < r \<Longrightarrow> chunk_count r d = Suc (chunk_count (r - d) d)"
proof -
  assume d: "0 < d" and r: "0 < r"
  have "(r + d - 1) div d = (r - d + d - 1) div d + 1"
    using d by (metis add.commute add_diff_eq diff_add_cancel div_add_self1 less_irrefl)
  moreover have "0 \<le> (r - d + d - 1) div d"
    using d r by (simp add: pos_imp_zdiv_nonneg_iff)
  ultimately show ?thesis
    unfolding chunk_count_def by (simp add: nat_add_distrib)
qed


lemma chunk_loop_Some_bound:
  assumes "chunk_loop h size' overlap start chunks = Some y"
  shows "\<not> (size' \<le> overlap \<and> start < int (length h))"
proof (rule chunk_loop.raw_induct
    [where P = "\<lambda>h s ov st c y. \<not> (s \<le> ov \<and> st < int (length h))", OF _ assms])
  fix f :: "'a list \<Rightarrow> int \<Rightarrow> int \<Rightarrow> int \<Rightarrow> 'a list list \<Rightarrow> 'a list list option"
  fix h s ov st c y
  assume IH: "\<And>h s ov st c y. f h s ov st c = Some y \<Longrightarrow> \<not> (s \<le> ov \<and> st < int (length h))"
    and eq: "(if st < int (length h)
              then f h s ov (st + (s - ov)) (c @ [py_slice h st (st + s)])
              else Some c) = Some y"
  show "\<not> (s \<le> ov \<and> st < int (length h))"
  proof
    assume a: "s \<le> ov \<and> st < int (length h)"
    with eq have "f h s ov (st + (s - ov)) (c @ [py_slice h st (st + s)]) = Some y"
      by simp
    from IH [OF this] a show False by simp
  qed
qed

lemma chunk_loop_diverges:
  assumes "size' \<le> overlap" "start < int (length h)"
  shows "chunk_loop h size' overlap start chunks = None"
  using chunk_loop_Some_bound [of h size' overlap start chunks] assms
  by (cases "chunk_loop h size' overlap start chunks") auto

lemma chunk_loop_closed:
  assumes d: "0 < size' - overlap"
  shows "chunk_loop h size' overlap start chunks =
     Some (chunks @ map (\<lambda>k. py_slice h (start + int k * (size' - overlap))
                                  (start + int k * (size' - overlap) + size'))
                    [0..<chunk_count (int (length h) - start) (size' - overlap)])"
proof (induction "nat (int (length h) - start)" arbitrary: start chunks rule: less_induct)
  case less
  show ?case
  proof (cases "start < int (length h)")
    case False
    then show ?thesis
      using d by (subst chunk_loop.simps) (simp add: chunk_count_le0)
  next
    case True
    let ?d = "size' - overlap"
    have m: "nat (int (length h) - (start + ?d)) < nat (int (length h) - start)"
      using True d by linarith
    have c: "chunk_count (int (length h) - start) ?d = Suc (chunk_count (int (length h) - (start + ?d)) ?d)"
      using chunk_count_step [of ?d "int (length h) - start"] True d by (simp add: algebra_simps)
    show ?thesis
      apply (subst chunk_loop.simps)
      apply (simp only: True if_True less.hyps [OF m] c)
      apply (simp only: map_upt_Suc)
      apply (simp add: algebra_simps)
      done
  qed
qed


lemma py_slice_window:
  "0 \<le> a \<Longrightarrow> 0 \<le> s \<Longrightarrow> py_slice xs a (a + s) = take (nat s) (drop (nat a) xs)"
  by (auto simp: py_slice_def py_index_def Let_def min_def nat_add_distrib)

lemma chunk_html_closed:
  assumes "0 \<le> overlap" "overlap < size'"
  shows "chunk_html h size' overlap =
     Some (map (\<lambda>k. take (nat size') (drop (k * nat (size' - overlap)) h))
               [0..<chunk_count (int (length h)) (size' - overlap)])"
proof -
  have "py_slice h (0 + int k * (size' - overlap)) (0 + int k * (size' - overlap) + size')
        = take (nat size') (drop (k * nat (size' - overlap)) h)" for k
    using assms py_slice_window [of "int k * (size' - overlap)" size' h]
    by (simp add: nat_mult_distrib)
  then show ?thesis
    using assms by (simp add: chunk_html_def chunk_loop_closed)
qed

lemma chunk_count_cover:
  assumes "0 < d"
  shows "r \<le> int (chunk_count r d) * d"
proof -
  have "0 \<le> (r + d - 1) div d \<or> r \<le> 0"
    using assms by (smt (verit) pos_imp_zdiv_nonneg_iff)
  moreover have "r + d - 1 - (r + d - 1) mod d = d * ((r + d - 1) div d)"
    by (simp add: minus_mod_eq_mult_div)
  moreover have "(r + d - 1) mod d < d" using assms by simp
  ultimately show ?thesis unfolding chunk_count_def
    using assms by (smt (verit) mult.commute nat_0_iff nat_eq_iff2 mult_nonneg_nonneg of_nat_0_le_iff)
qed

lemma chunk_count_start:
  assumes "0 < d" "k < chunk_count r d"
  shows "int k * d < r"
proof -
  have "int k + 1 \<le> (r + d - 1) div d"
    using assms unfolding chunk_count_def by linarith
  then have "(int k + 1) * d \<le> ((r + d - 1) div d) * d"
    using assms by (simp add: mult_right_mono)
  also have "\<dots> \<le> r + d - 1"
  proof -
    have "(r + d - 1) div d * d + (r + d - 1) mod d = r + d - 1" by simp
    moreover have "0 \<le> (r + d - 1) mod d" using assms by simp
    ultimately show ?thesis by linarith
  qed
  finally show ?thesis by (simp add: algebra_simps)
qed

lemma chunk_count_ceiling:
  assumes "0 < d"
  shows "int (chunk_count (int n) d) = \<lceil>real n / real_of_int d\<rceil>"
proof (rule antisym)
  let ?N = "chunk_count (int n) d"
  show "int ?N \<le> \<lceil>real n / real_of_int d\<rceil>"
  proof (cases ?N)
    case 0
    have "0 \<le> real n / real_of_int d" using assms by simp
    then have "(0::int) \<le> \<lceil>real n / real_of_int d\<rceil>" by (simp only: zero_le_ceiling)
    with 0 show ?thesis by simp
  next
    case (Suc k)
    then have "int k * d < int n"
      using chunk_count_start [of d k "int n"] assms by simp
    then have "real_of_int (int k * d) < real n"
      by (metis of_int_less_iff of_int_of_nat_eq)
    then have "real_of_int (int k) < real n / real_of_int d"
      using assms by (simp add: pos_less_divide_eq)
    then have "int k < \<lceil>real n / real_of_int d\<rceil>"
      by (simp only: less_ceiling_iff)
    with Suc show ?thesis by simp
  qed
  have "int n \<le> int ?N * d"
    using chunk_count_cover [OF assms] .
  then have "real n \<le> real_of_int (int ?N * d)"
    by (metis of_int_le_iff of_int_of_nat_eq)
  then have "real n / real_of_int d \<le> real_of_int (int ?N)"
    using assms by (simp add: pos_divide_le_eq)
  then show "\<lceil>real n / real_of_int d\<rceil> \<le> int ?N"
    by (simp only: ceiling_le_iff)
qed

lemma concat_windows:
  "concat (map (\<lambda>k. take d (drop (k * d) h)) [0..<N]) = take (N * d) h"
proof (induction N)
  case 0
  then show ?case by simp
next
  case (Suc N)
  have "take (Suc N * d) h = take (N * d) h @ take d (drop (N * d) h)"
    by (simp only: mult_Suc take_add add.commute [of d])
  with Suc show ?case by simp
qed

lemma chunk_count_one:
  assumes "0 < d" "0 < r" "r \<le> d"
  shows "chunk_count r d = 1"
proof -
  have "chunk_count (r - d) d = 0" using assms by (simp add: chunk_count_le0)
  with chunk_count_step [OF assms(1,2)] show ?thesis by simp
qed

lemma chunk_count_ge2:
  assumes "0 < d" "d < r"
  shows "2 \<le> chunk_count r d"
proof -
  have "chunk_count r d = Suc (chunk_count (r - d) d)"
    using chunk_count_step [of d r] assms by simp
  moreover have "chunk_count (r - d) d = Suc (chunk_count (r - d - d) d)"
    using chunk_count_step [of d "r - d"] assms by simp
  ultimately show ?thesis by simp
qed

text \<open>
  C10. With \<open>size > overlap \<ge> 0\<close> the loop of \<open>chunk_html\<close> returns: each
  iteration moves \<open>start\<close> by \<open>size - overlap \<ge> 1\<close>. The number of chunks is at most
  the ceiling of \<open>len(html) / (size - overlap)\<close>, and the empty page gives no chunk.
\<close>

theorem chunk_html_terminates:
  assumes "0 \<le> overlap" "overlap < size'"
  shows "(\<exists>chunks. chunk_html h size' overlap = Some chunks \<and>
            int (length chunks) \<le> \<lceil>real (length h) / real_of_int (size' - overlap)\<rceil>) \<and>
         chunk_html ([] :: 'a list) size' overlap = Some []"
proof -
  have d: "0 < size' - overlap" using assms by simp
  show ?thesis
    using assms by (simp add: chunk_html_closed chunk_count_ceiling [OF d] chunk_count_le0)
qed

text \<open>The bound at a ten-character page, windows of 4 overlapping by 1.\<close>

theorem chunk_html_terminates_witness:
  "(0::int) \<le> 1 \<and> (1::int) < 4 \<and>
   chunk_html ''abcdefghij'' 4 1 = Some [''abcd'', ''defg'', ''ghij'', ''j''] \<and>
   int (length [''abcd'', ''defg'', ''ghij'', ''j'']) \<le> \<lceil>real (length ''abcdefghij'') / real_of_int (4 - 1)\<rceil>"
proof -
  have e: "chunk_html ''abcdefghij'' 4 1 = Some [''abcd'', ''defg'', ''ghij'', ''j'']"
    by code_simp
  from chunk_html_terminates [of 1 4 "''abcdefghij''"] e show ?thesis
    by simp
qed

text \<open>
  C3, as the code has it. For \<open>size > overlap \<ge> 0\<close> and a page no longer than
  \<open>size\<close>, the splitter returns the whole page as its only chunk exactly when the page
  is not empty and no longer than the step \<open>size - overlap\<close>. The empty page gives no
  chunk; a page longer than the step gives the whole page first and then further chunks
  that repeat its tail.
\<close>

theorem chunk_html_single:
  assumes "0 \<le> overlap" "overlap < size'" "int (length h) \<le> size'"
  shows "(chunk_html h size' overlap = Some [h]) =
         (h \<noteq> [] \<and> int (length h) \<le> size' - overlap)"
proof -
  let ?d = "size' - overlap"
  let ?N = "chunk_count (int (length h)) ?d"
  have d: "0 < ?d" using assms by simp
  have cl: "chunk_html h size' overlap =
     Some (map (\<lambda>k. take (nat size') (drop (k * nat ?d) h)) [0..<?N])"
    using assms(1,2) by (rule chunk_html_closed)
  show ?thesis
  proof (cases "h = []")
    case True
    then show ?thesis using cl d by (simp add: chunk_count_le0)
  next
    case False
    then have pos: "0 < int (length h)" by simp
    show ?thesis
    proof (cases "int (length h) \<le> ?d")
      case True
      then have "?N = 1" using chunk_count_one [OF d pos] by simp
      then show ?thesis using cl True False assms by simp
    next
      case gt: False
      then have "2 \<le> ?N" using chunk_count_ge2 [OF d, of "int (length h)"] by simp
      then have "length (map (\<lambda>k. take (nat size') (drop (k * nat ?d) h)) [0..<?N]) \<noteq> length [h]"
        by simp
      then have "map (\<lambda>k. take (nat size') (drop (k * nat ?d) h)) [0..<?N] \<noteq> [h]"
        by metis
      then show ?thesis using cl gt by simp
    qed
  qed
qed

text \<open>A four-character page, windows of 5 overlapping by 1: one chunk.\<close>

theorem chunk_html_single_witness:
  "(0::int) \<le> 1 \<and> (1::int) < 5 \<and> int (length ''abcd'') \<le> 5 \<and>
   chunk_html ''abcd'' 5 1 = Some [''abcd''] \<and> ''abcd'' \<noteq> [] \<and> int (length ''abcd'') \<le> 5 - 1"
  using chunk_html_single [of 1 5 "''abcd''"] by simp

text \<open>
  C3 as stated fails: a three-character page with windows of 3 overlapping by 1 gives
  two chunks, and the empty page gives none.
\<close>

theorem chunk_html_single_counterexample:
  "(0::int) \<le> 1 \<and> (1::int) < 3 \<and> int (length ''abc'') \<le> 3 \<and>
   chunk_html ''abc'' 3 1 = Some [''abc'', ''c''] \<and>
   int (length (''''::string)) \<le> 3 \<and> chunk_html (''''::string) 3 1 = Some []"
  by (simp add: chunk_html_def chunk_loop.simps py_slice_def py_index_def)

text \<open>
  C4, as the code has it. \<open>chunk_html\<close> checks nothing: with \<open>size \<le> overlap\<close> the
  empty page returns the empty list of chunks, and on any other page the loop never
  returns, since \<open>start\<close> never grows.
\<close>

theorem chunk_html_invalid_config:
  assumes "size' \<le> overlap"
  shows "chunk_html h size' overlap = (if h = [] then Some [] else None)"
proof (cases "h = []")
  case True
  then show ?thesis by (simp add: chunk_html_def chunk_loop.simps)
next
  case False
  then have "0 < int (length h)" by simp
  from chunk_loop_diverges [OF assms this] False show ?thesis
    by (simp add: chunk_html_def)
qed

text \<open>Windows of 2 overlapping by 3, on a three-character page and on the empty page.\<close>

theorem chunk_html_invalid_config_witness:
  "(2::int) \<le> 3 \<and> chunk_html ''abc'' 2 3 = None \<and> chunk_html (''''::string) 2 3 = Some []"
  using chunk_html_invalid_config [of 2 3 "''abc''"] chunk_html_invalid_config [of 2 3 "''''"]
  by simp

text \<open>
  C4 as stated fails: with \<open>size = overlap = 1\<close> the empty page returns a list of
  chunks, where the claim asks for a failure.
\<close>

theorem chunk_html_invalid_config_counterexample:
  "(1::int) \<le> 1 \<and> chunk_html (''''::string) 1 1 = Some []"
  by (simp add: chunk_html_def chunk_loop.simps)

text \<open>
  C7, as the code has it. For \<open>size > overlap \<ge> 0\<close> and step \<open>d = size - overlap\<close> the
  splitter returns, in order, the windows \<open>s[k*d : k*d + size]\<close> cut at the end of
  \<open>s\<close>. The first \<open>d\<close> characters of every chunk, concatenated, are \<open>s\<close>. A
  chunk whose window lies inside \<open>s\<close> has length \<open>size\<close>; a chunk whose window reaches
  the end of \<open>s\<close> is the rest of \<open>s\<close> from its start, and there can be several of
  them. What a chunk has beyond its first \<open>d\<close> characters is the beginning of the next
  chunk, and these are exactly \<open>overlap\<close> characters when the chunk has length
  \<open>size\<close>. The last chunk ends where \<open>s\<close> ends.
\<close>

theorem chunk_html_coverage:
  assumes "0 \<le> overlap" "overlap < size'"
  shows "\<exists>chunks. chunk_html h size' overlap = Some chunks \<and>
     (\<forall>k<length chunks. chunks ! k = take (nat size') (drop (k * nat (size' - overlap)) h)) \<and>
     concat (map (take (nat (size' - overlap))) chunks) = h \<and>
     (\<forall>k<length chunks. int k * (size' - overlap) + size' \<le> int (length h) \<longrightarrow>
        length (chunks ! k) = nat size') \<and>
     (\<forall>k<length chunks. int (length h) \<le> int k * (size' - overlap) + size' \<longrightarrow>
        chunks ! k = drop (k * nat (size' - overlap)) h) \<and>
     (\<forall>k. Suc k < length chunks \<longrightarrow>
        drop (nat (size' - overlap)) (chunks ! k) = take (nat overlap) (chunks ! Suc k) \<and>
        (int k * (size' - overlap) + size' \<le> int (length h) \<longrightarrow>
           length (drop (nat (size' - overlap)) (chunks ! k)) = nat overlap)) \<and>
     (chunks \<noteq> [] \<longrightarrow> last chunks = drop ((length chunks - 1) * nat (size' - overlap)) h)"
proof -
  define d where "d = nat (size' - overlap)"
  define sz where "sz = nat size'"
  define ov where "ov = nat overlap"
  define N where "N = chunk_count (int (length h)) (size' - overlap)"
  define chunks where "chunks = map (\<lambda>k. take sz (drop (k * d) h)) [0..<N]"
  have dpos: "0 < size' - overlap" using assms by simp
  have szd: "sz = d + ov" and d0: "0 < d" and id: "int d = size' - overlap" and isz: "int sz = size'"
    using assms by (simp_all add: d_def sz_def ov_def)
  have len: "length chunks = N" by (simp add: chunks_def)
  have nth: "chunks ! k = take sz (drop (k * d) h)" if "k < N" for k
    using that by (simp add: chunks_def)
  have cl: "chunk_html h size' overlap = Some chunks"
    using chunk_html_closed [OF assms, of h] by (simp add: chunks_def d_def sz_def N_def)
  have cover: "length h \<le> N * d"
  proof -
    have "int (length h) \<le> int N * int d"
      using chunk_count_cover [OF dpos, of "int (length h)"] by (simp add: N_def id)
    then show ?thesis by (metis of_nat_le_iff of_nat_mult)
  qed
  have recon: "concat (map (take d) chunks) = h"
  proof -
    have "map (take d) chunks = map (\<lambda>k. take d (drop (k * d) h)) [0..<N]"
      by (simp add: chunks_def szd min_def)
    then show ?thesis using cover by (simp add: concat_windows)
  qed
  have full: "length (chunks ! k) = sz"
    if "k < N" "int k * (size' - overlap) + size' \<le> int (length h)" for k
  proof -
    have "int (k * d + sz) \<le> int (length h)" using that(2) by (simp add: id isz)
    then have "k * d + sz \<le> length h" by (simp only: of_nat_le_iff)
    then show ?thesis using that(1) by (simp add: nth)
  qed
  have tail: "chunks ! k = drop (k * d) h"
    if "k < N" "int (length h) \<le> int k * (size' - overlap) + size'" for k
  proof -
    have "int (length h) \<le> int (k * d + sz)" using that(2) by (simp add: id isz)
    then have "length h \<le> k * d + sz" by (simp only: of_nat_le_iff)
    then show ?thesis using that(1) by (simp add: nth)
  qed
  have share: "drop d (chunks ! k) = take ov (chunks ! Suc k)" if "Suc k < N" for k
  proof -
    have "drop d (chunks ! k) = take ov (drop (Suc k * d) h)"
      using that by (simp add: nth drop_take szd add.commute)
    also have "\<dots> = take ov (chunks ! Suc k)"
      using that by (simp add: nth szd min_def)
    finally show ?thesis .
  qed
  have share_len: "length (drop d (chunks ! k)) = ov"
    if "k < N" "int k * (size' - overlap) + size' \<le> int (length h)" for k
    using full [OF that] by (simp add: szd)
  have lst: "last chunks = drop ((N - 1) * d) h" if "chunks \<noteq> []"
  proof -
    have N0: "0 < N" using that len by (cases N) auto
    have "length h \<le> (N - 1) * d + sz"
    proof -
      have "N * d = (N - 1) * d + d" using N0 by (cases N) simp_all
      with cover show ?thesis by (simp add: szd)
    qed
    moreover have "last chunks = chunks ! (N - 1)"
      using that len by (simp add: last_conv_nth)
    ultimately show ?thesis using N0 by (simp add: nth)
  qed
  have main: "\<exists>chunks. chunk_html h size' overlap = Some chunks \<and>
     (\<forall>k<length chunks. chunks ! k = take sz (drop (k * d) h)) \<and>
     concat (map (take d) chunks) = h \<and>
     (\<forall>k<length chunks. int k * (size' - overlap) + size' \<le> int (length h) \<longrightarrow>
        length (chunks ! k) = sz) \<and>
     (\<forall>k<length chunks. int (length h) \<le> int k * (size' - overlap) + size' \<longrightarrow>
        chunks ! k = drop (k * d) h) \<and>
     (\<forall>k. Suc k < length chunks \<longrightarrow>
        drop d (chunks ! k) = take ov (chunks ! Suc k) \<and>
        (int k * (size' - overlap) + size' \<le> int (length h) \<longrightarrow>
           length (drop d (chunks ! k)) = ov)) \<and>
     (chunks \<noteq> [] \<longrightarrow> last chunks = drop ((length chunks - 1) * d) h)"
  proof (intro exI [of _ chunks] conjI allI impI)
    show "chunk_html h size' overlap = Some chunks" by (rule cl)
    show "chunks ! k = take sz (drop (k * d) h)" if "k < length chunks" for k
      using that len nth by simp
    show "concat (map (take d) chunks) = h" by (rule recon)
    show "length (chunks ! k) = sz"
      if "k < length chunks" "int k * (size' - overlap) + size' \<le> int (length h)" for k
      using that len full by simp
    show "chunks ! k = drop (k * d) h"
      if "k < length chunks" "int (length h) \<le> int k * (size' - overlap) + size'" for k
      using that len tail by simp
    show "drop d (chunks ! k) = take ov (chunks ! Suc k)" if "Suc k < length chunks" for k
      using that len share by simp
    show "length (drop d (chunks ! k)) = ov"
      if "Suc k < length chunks" "int k * (size' - overlap) + size' \<le> int (length h)" for k
    proof -
      have "k < N" using that(1) len by simp
      then show ?thesis using that(2) by (rule share_len)
    qed
    show "last chunks = drop ((length chunks - 1) * d) h" if "chunks \<noteq> []"
      using that lst len by simp
  qed
  then show ?thesis unfolding d_def sz_def ov_def .
qed

text \<open>The four chunks of a four-character string, windows of 3 overlapping by 2.\<close>

theorem chunk_html_coverage_witness:
  "(0::int) \<le> 2 \<and> (2::int) < 3 \<and>
   chunk_html ''abcd'' 3 2 = Some [''abc'', ''bcd'', ''cd'', ''d''] \<and>
   concat (map (take 1) [''abc'', ''bcd'', ''cd'', ''d'']) = ''abcd'' \<and>
   last [''abc'', ''bcd'', ''cd'', ''d''] = drop 3 ''abcd''"
proof -
  have e: "chunk_html ''abcd'' 3 2 = Some [''abc'', ''bcd'', ''cd'', ''d'']"
    by code_simp
  from chunk_html_coverage [of 2 3 "''abcd''"] e show ?thesis
    by simp
qed

text \<open>
  C7 as stated fails: of the four chunks of \<open>abcd\<close> with windows of 3 overlapping by 2,
  the third has two characters and is not the last.
\<close>

theorem chunk_html_coverage_counterexample:
  "(0::int) \<le> 2 \<and> (2::int) < 3 \<and>
   chunk_html ''abcd'' 3 2 = Some [''abc'', ''bcd'', ''cd'', ''d''] \<and>
   \<not> list_all (\<lambda>c. int (length c) = 3) (butlast [''abc'', ''bcd'', ''cd'', ''d''])"
  by (simp add: chunk_html_def chunk_loop.simps py_slice_def py_index_def)


section \<open>Properties of the response parser\<close>

lemma first_list_value_none:
  "list_all (\<lambda>(key, v). \<not> is_list v) items \<Longrightarrow> first_list_value items = []"
  by (induction items rule: first_list_value.induct) auto

lemma add_selectors_eq:
  "add_selectors xs s =
     (if list_all hashable xs then None else Some TypeError,
      foldl (\<lambda>s x. py_set_add x s) s (takeWhile hashable xs))"
  by (induction xs arbitrary: s) (auto simp: set_add_def)

lemma json_match_nonempty: "json_match r = Some m \<Longrightarrow> r \<noteq> []"
  by (cases r) auto

text \<open>
  C8. For every response text and every decoder, parsing returns a value and never an
  exception, in both files. When the text has no match of the pattern, when the decoder
  rejects the match, or when the decoded object has no list-valued field, the response
  adds nothing to the selector set (scraper-agent.py) and the result is the empty list
  (\<^verbatim>\<open>universal_scraper_agent.py\<close>).
\<close>

theorem parser_total_lenient:
  "(\<exists>s. chunk_response loads (Some r) all_selectors = Inr s) \<and>
   (\<exists>v. detect_selectors loads r = Inr v) \<and>
   (json_match r = None \<longrightarrow>
      chunk_response loads (Some r) all_selectors = Inr all_selectors \<and>
      detect_selectors loads r = Inr []) \<and>
   (\<forall>m e. json_match r = Some m \<and> loads m = Inl e \<longrightarrow>
      chunk_response loads (Some r) all_selectors = Inr all_selectors \<and>
      detect_selectors loads r = Inr []) \<and>
   (\<forall>m items. json_match r = Some m \<and> loads m = Inr (JObj items) \<and>
        list_all (\<lambda>(key, v). \<not> is_list v) items \<longrightarrow>
      chunk_response loads (Some r) all_selectors = Inr all_selectors \<and>
      detect_selectors loads r = Inr [])"
proof (intro conjI allI impI)
  show "\<exists>s. chunk_response loads (Some r) all_selectors = Inr s"
    by (simp add: chunk_response_def split: prod.split option.split)
  show "\<exists>v. detect_selectors loads r = Inr v"
    by (simp add: detect_selectors_def split: sum.split)
next
  assume "json_match r = None"
  then show "chunk_response loads (Some r) all_selectors = Inr all_selectors"
    and "detect_selectors loads r = Inr []"
    by (simp_all add: chunk_response_def chunk_response_body_def detect_selectors_def
        detect_selectors_body_def)
next
  fix m e
  assume "json_match r = Some m \<and> loads m = Inl e"
  then show "chunk_response loads (Some r) all_selectors = Inr all_selectors"
    and "detect_selectors loads r = Inr []"
    by (simp_all add: chunk_response_def chunk_response_body_def detect_selectors_def
        detect_selectors_body_def)
next
  fix m items
  assume "json_match r = Some m \<and> loads m = Inr (JObj items) \<and>
        list_all (\<lambda>(key, v). \<not> is_list v) items"
  then show "chunk_response loads (Some r) all_selectors = Inr all_selectors"
    and "detect_selectors loads r = Inr []"
    by (simp_all add: chunk_response_def chunk_response_body_def detect_selectors_def
        detect_selectors_body_def selectors_list_def first_list_value_none)
qed

text \<open>
  C6, as the code has it. Neither file looks at the type of an element of the candidate
  list. \<open>detect_selectors\<close> returns the list as decoded, non-strings included. The loop
  of \<open>detect_selectors_in_chunks\<close> adds every element up to the first unhashable one
  (a list or a dict) to the set, numbers, booleans and null included; at the first
  unhashable element the exception ends the response, and the elements after it are
  not added. No exception reaches the caller.
\<close>

theorem nonstring_elements_kept:
  assumes "json_match r = Some m" "loads m = Inr data"
  shows "chunk_response loads (Some r) all_selectors =
           Inr (foldl (\<lambda>s x. py_set_add x s) all_selectors
                  (takeWhile hashable (selectors_list data))) \<and>
         detect_selectors loads r = Inr (selectors_list data)"
  using assms json_match_nonempty [OF assms(1)]
  by (simp add: chunk_response_def chunk_response_body_def detect_selectors_def
      detect_selectors_body_def add_selectors_eq selectors_list_def split: json.split)

text \<open>The three cases at three response texts.\<close>

theorem parser_total_lenient_witness:
  \<open>json_match ''no json here'' = None \<and>
   chunk_response loads_example (Some ''no json here'') [JStr ''a.btn''] = Inr [JStr ''a.btn''] \<and>
   detect_selectors loads_example ''no json here'' = Inr [] \<and>
   json_match ''x {oops}'' = Some ''{oops}'' \<and>
   loads_example ''{oops}'' = Inl JSONDecodeError \<and>
   chunk_response loads_example (Some ''x {oops}'') [JStr ''a.btn''] = Inr [JStr ''a.btn''] \<and>
   detect_selectors loads_example ''x {oops}'' = Inr [] \<and>
   json_match ''x {"count": 2}'' = Some ''{"count": 2}'' \<and>
   loads_example ''{"count": 2}'' = Inr (JObj [(''count'', JInt 2)]) \<and>
   list_all (\<lambda>(key, v). \<not> is_list v) [(''count'', JInt 2)] \<and>
   chunk_response loads_example (Some ''x {"count": 2}'') [JStr ''a.btn''] = Inr [JStr ''a.btn''] \<and>
   detect_selectors loads_example ''x {"count": 2}'' = Inr []\<close>
proof -
  have m1: \<open>json_match ''no json here'' = None\<close>
    by simp
  have m2: \<open>json_match ''x {oops}'' = Some ''{oops}''\<close>
    by (simp add: upto_last_def)
  have l2: \<open>loads_example ''{oops}'' = Inl JSONDecodeError\<close>
    by (simp add: loads_example_def)
  have m3: \<open>json_match ''x {"count": 2}'' = Some ''{"count": 2}''\<close>
    by (simp add: upto_last_def)
  have l3: \<open>loads_example ''{"count": 2}'' = Inr (JObj [(''count'', JInt 2)])\<close>
    by (simp add: loads_example_def)
  have n3: "list_all (\<lambda>(key, v). \<not> is_list v) [(''count'', JInt 2)]"
    by simp
  note t1 = parser_total_lenient [of loads_example "''no json here''" "[JStr ''a.btn'']"]
  note t2 = parser_total_lenient [of loads_example "''x {oops}''" "[JStr ''a.btn'']"]
  note t3 = parser_total_lenient [of loads_example \<open>''x {"count": 2}''\<close> "[JStr ''a.btn'']"]
  from t1 m1 have c1: "chunk_response loads_example (Some ''no json here'') [JStr ''a.btn''] = Inr [JStr ''a.btn''] \<and>
      detect_selectors loads_example ''no json here'' = Inr []"
    by blast
  from t2 m2 l2 have c2: "chunk_response loads_example (Some ''x {oops}'') [JStr ''a.btn''] = Inr [JStr ''a.btn''] \<and>
      detect_selectors loads_example ''x {oops}'' = Inr []"
    by blast
  from t3 m3 l3 n3 have c3: \<open>chunk_response loads_example (Some ''x {"count": 2}'') [JStr ''a.btn''] = Inr [JStr ''a.btn''] \<and>
      detect_selectors loads_example ''x {"count": 2}'' = Inr []\<close>
    by blast
  from m1 c1 m2 l2 c2 m3 l3 n3 c3 show ?thesis by blast
qed

text \<open>A response holding a number and a selector: both are kept.\<close>

theorem nonstring_elements_kept_witness:
  \<open>json_match ''[1, "a.btn"]'' = Some ''[1, "a.btn"]'' \<and>
   loads_example ''[1, "a.btn"]'' = Inr (JArr [JInt 1, JStr ''a.btn'']) \<and>
   chunk_response loads_example (Some ''[1, "a.btn"]'') [] = Inr [JInt 1, JStr ''a.btn''] \<and>
   detect_selectors loads_example ''[1, "a.btn"]'' = Inr [JInt 1, JStr ''a.btn'']\<close>
proof -
  have m: \<open>json_match ''[1, "a.btn"]'' = Some ''[1, "a.btn"]''\<close>
    by (simp add: upto_last_def)
  have l: \<open>loads_example ''[1, "a.btn"]'' = Inr (JArr [JInt 1, JStr ''a.btn''])\<close>
    by (simp add: loads_example_def)
  from nonstring_elements_kept [where loads = loads_example and all_selectors = "[]", OF m l] m l show ?thesis
    by (simp add: selectors_list_def py_set_add_def py_eq_def)
qed

text \<open>
  C6 as stated fails: a response whose list begins with an empty list adds nothing,
  although a string selector follows; a number is added to the set, not discarded; and
  \<open>detect_selectors\<close> returns the non-string element with the rest.
\<close>

theorem nonstring_elements_discarded_counterexample:
  \<open>chunk_response loads_example (Some ''[[], "a.btn"]'') [] = Inr [] \<and>
   chunk_response loads_example (Some ''[1, "a.btn"]'') [] = Inr [JInt 1, JStr ''a.btn''] \<and>
   detect_selectors loads_example ''[[], "a.btn"]'' = Inr [JArr [], JStr ''a.btn'']\<close>
  by (simp add: chunk_response_def chunk_response_body_def detect_selectors_def
      detect_selectors_body_def loads_example_def selectors_list_def upto_last_def
      set_add_def py_set_add_def py_eq_def)


section \<open>Properties of the crawl loop\<close>

lemma gather_fetched:
  "fetched (gather fetch_ok url tasks s) =
     fetched s @ map (\<lambda>t. (t, url, fetch_ok t)) tasks"
  by (induction tasks arbitrary: s)
     (simp_all add: gather_def download_pdf_concurrently_def Let_def)

lemma gather_download_log:
  "download_log (gather fetch_ok url tasks s) =
     download_log s @ map (\<lambda>t. (t, url)) (filter fetch_ok tasks)"
  by (induction tasks arbitrary: s)
     (simp_all add: gather_def download_pdf_concurrently_def Let_def)

lemma gather_other:
  "visited_pages (gather fetch_ok url tasks s) = visited_pages s"
  "downloaded_pdf_urls (gather fetch_ok url tasks s) = downloaded_pdf_urls s"
  "queue (gather fetch_ok url tasks s) = queue s"
  "dequeued (gather fetch_ok url tasks s) = dequeued s"
  by (induction tasks arbitrary: s)
     (simp_all add: gather_def download_pdf_concurrently_def Let_def)

lemma download_tasks_eq:
  "\<exists>new. download_tasks links downloaded tasks = (downloaded \<union> set new, tasks @ new) \<and>
         distinct new \<and> set new \<inter> downloaded = {} \<and> set new \<subseteq> set links"
proof (induction links arbitrary: downloaded tasks)
  case Nil
  then show ?case by simp
next
  case (Cons pdf_url rest)
  show ?case
  proof (cases "pdf_url \<in> downloaded")
    case True
    with Cons [of downloaded tasks] show ?thesis by auto
  next
    case False
    from Cons [of "insert pdf_url downloaded" "tasks @ [pdf_url]"]
    obtain new where n:
      "download_tasks rest (insert pdf_url downloaded) (tasks @ [pdf_url]) =
         (insert pdf_url downloaded \<union> set new, (tasks @ [pdf_url]) @ new)"
      "distinct new" "set new \<inter> insert pdf_url downloaded = {}" "set new \<subseteq> set rest"
      by blast
    have "download_tasks (pdf_url # rest) downloaded tasks =
            (downloaded \<union> set (pdf_url # new), tasks @ pdf_url # new)"
      using False n(1) by simp
    moreover have "distinct (pdf_url # new)" using n(2,3) by auto
    moreover have "set (pdf_url # new) \<inter> downloaded = {}" using False n(3) by auto
    moreover have "set (pdf_url # new) \<subseteq> set (pdf_url # rest)" using n(4) by auto
    ultimately show ?thesis by blast
  qed
qed

lemma enqueue_links_app:
  "\<exists>new. enqueue_links netloc base_domain links visited q = q @ new \<and>
         distinct new \<and> set new \<inter> visited = {} \<and> set new \<inter> set q = {}"
proof (induction netloc base_domain links visited q rule: enqueue_links.induct)
  case (1 netloc base_domain visited q)
  then show ?case by simp
next
  case (2 netloc base_domain rest visited q)
  then show ?case by simp
next
  case (3 netloc base_domain rest visited q)
  then show ?case by simp
next
  case (4 netloc base_domain href rest visited q)
  let ?go = "href \<noteq> [] \<and> prefix ''http'' href"
  show ?case
  proof (cases "?go \<and> (\<exists>n. netloc href = Inr n)")
    case False
    then show ?thesis using 4 by (cases "netloc href") auto
  next
    case True
    then obtain n where n: "netloc href = Inr n" and go: ?go by blast
    show ?thesis
    proof (cases "n = base_domain \<and> href \<notin> visited \<and> href \<notin> set q")
      case False
      then show ?thesis using 4 n go by auto
    next
      case True
      with "4.IH"(1) [OF go n] obtain new where new:
        "enqueue_links netloc base_domain rest visited (q @ [href]) = (q @ [href]) @ new"
        "distinct new" "set new \<inter> visited = {}" "set new \<inter> set (q @ [href]) = {}"
        by blast
      have "enqueue_links netloc base_domain (Href (Some href) # rest) visited q = q @ href # new"
        using True n go new(1) by simp
      moreover have "distinct (href # new)" using new(2,4) by auto
      moreover have "set (href # new) \<inter> visited = {}" using True new(3) by auto
      moreover have "set (href # new) \<inter> set q = {}" using True new(4) by auto
      ultimately show ?thesis by blast
    qed
  qed
qed

lemma process_page_effect:
  "\<exists>tasks new.
     distinct tasks \<and> set tasks \<inter> downloaded_pdf_urls s = {} \<and>
     distinct new \<and> set new \<inter> visited_pages s = {} \<and> set new \<inter> set (queue s) = {} \<and>
     visited_pages (process_page netloc base_domain url pdf_hrefs fetch_ok links s) = visited_pages s \<and>
     dequeued (process_page netloc base_domain url pdf_hrefs fetch_ok links s) = dequeued s \<and>
     queue (process_page netloc base_domain url pdf_hrefs fetch_ok links s) = queue s @ new \<and>
     downloaded_pdf_urls (process_page netloc base_domain url pdf_hrefs fetch_ok links s) =
       downloaded_pdf_urls s \<union> set tasks \<and>
     fetched (process_page netloc base_domain url pdf_hrefs fetch_ok links s) =
       fetched s @ map (\<lambda>t. (t, url, fetch_ok t)) tasks \<and>
     download_log (process_page netloc base_domain url pdf_hrefs fetch_ok links s) =
       download_log s @ map (\<lambda>t. (t, url)) (filter fetch_ok tasks)"
proof -
  obtain tasks where t:
    "download_tasks (pdf_links pdf_hrefs []) (downloaded_pdf_urls s) [] =
       (downloaded_pdf_urls s \<union> set tasks, [] @ tasks)"
    "distinct tasks" "set tasks \<inter> downloaded_pdf_urls s = {}"
    using download_tasks_eq [of "pdf_links pdf_hrefs []" "downloaded_pdf_urls s" "[]"] by blast
  obtain new where n:
    "enqueue_links netloc base_domain links (visited_pages s) (queue s) = queue s @ new"
    "distinct new" "set new \<inter> visited_pages s = {}" "set new \<inter> set (queue s) = {}"
    using enqueue_links_app [of netloc base_domain links "visited_pages s" "queue s"] by blast
  show ?thesis
    apply (rule exI [of _ tasks], rule exI [of _ new])
    using t n
    apply (simp add: process_page_def Let_def gather_fetched gather_download_log gather_other)
    done
qed

lemma crawl_step_effect:
  assumes "queue s = url # rest"
  shows "\<exists>v fetch_ok tasks new.
     (v = Skipped) = (url \<in> visited_pages s) \<and>
     dequeued (crawl_step netloc base_domain p s) = dequeued s @ [(url, v)] \<and>
     visited_pages (crawl_step netloc base_domain p s) =
       (if v = Loaded then insert url (visited_pages s) else visited_pages s) \<and>
     queue (crawl_step netloc base_domain p s) = rest @ new \<and>
     distinct new \<and> set new \<inter> visited_pages (crawl_step netloc base_domain p s) = {} \<and>
     set new \<inter> set rest = {} \<and>
     distinct tasks \<and> set tasks \<inter> downloaded_pdf_urls s = {} \<and>
     downloaded_pdf_urls (crawl_step netloc base_domain p s) = downloaded_pdf_urls s \<union> set tasks \<and>
     fetched (crawl_step netloc base_domain p s) =
       fetched s @ map (\<lambda>t. (t, url, fetch_ok t)) tasks \<and>
     download_log (crawl_step netloc base_domain p s) =
       download_log s @ map (\<lambda>t. (t, url)) (filter fetch_ok tasks)"
proof (cases "url \<in> visited_pages s")
  case True
  show ?thesis
    apply (rule exI [of _ Skipped], rule exI [of _ "\<lambda>u. True"])
    apply (rule exI [of _ "[]"], rule exI [of _ "[]"])
    using assms True apply (simp add: crawl_step_def)
    done
next
  case False
  show ?thesis
  proof (cases p)
    case NavigationError
    show ?thesis
      apply (rule exI [of _ Failed], rule exI [of _ "\<lambda>u. True"])
      apply (rule exI [of _ "[]"], rule exI [of _ "[]"])
      using assms False NavigationError apply (simp add: crawl_step_def)
      done
  next
    case PageError
    show ?thesis
      apply (rule exI [of _ Loaded], rule exI [of _ "\<lambda>u. True"])
      apply (rule exI [of _ "[]"], rule exI [of _ "[]"])
      using assms False PageError apply (simp add: crawl_step_def)
      done
  next
    case (Page pdf_hrefs fetch_ok links)
    let ?s1 = "s\<lparr>queue := rest, dequeued := dequeued s @ [(url, Loaded)],
                  visited_pages := insert url (visited_pages s)\<rparr>"
    have step: "crawl_step netloc base_domain p s =
                  process_page netloc base_domain url pdf_hrefs fetch_ok links ?s1"
      using assms False Page by (simp add: crawl_step_def)
    from process_page_effect [of ?s1 netloc base_domain url pdf_hrefs fetch_ok links]
    obtain tasks new where e:
      "distinct tasks" "set tasks \<inter> downloaded_pdf_urls ?s1 = {}"
      "distinct new" "set new \<inter> visited_pages ?s1 = {}" "set new \<inter> set (queue ?s1) = {}"
      "visited_pages (process_page netloc base_domain url pdf_hrefs fetch_ok links ?s1) = visited_pages ?s1"
      "dequeued (process_page netloc base_domain url pdf_hrefs fetch_ok links ?s1) = dequeued ?s1"
      "queue (process_page netloc base_domain url pdf_hrefs fetch_ok links ?s1) = queue ?s1 @ new"
      "downloaded_pdf_urls (process_page netloc base_domain url pdf_hrefs fetch_ok links ?s1) =
         downloaded_pdf_urls ?s1 \<union> set tasks"
      "fetched (process_page netloc base_domain url pdf_hrefs fetch_ok links ?s1) =
         fetched ?s1 @ map (\<lambda>t. (t, url, fetch_ok t)) tasks"
      "download_log (process_page netloc base_domain url pdf_hrefs fetch_ok links ?s1) =
         download_log ?s1 @ map (\<lambda>t. (t, url)) (filter fetch_ok tasks)"
      by blast
    show ?thesis
      apply (rule exI [of _ Loaded], rule exI [of _ fetch_ok])
      apply (rule exI [of _ tasks], rule exI [of _ new])
      using e False apply (simp add: step)
      done
  qed
qed

lemma crawl_step_empty: "queue s = [] \<Longrightarrow> crawl_step netloc base_domain p s = s"
  by (simp add: crawl_step_def)

lemma no_revisit_snoc:
  "no_revisit (xs @ [(u, v)]) = (no_revisit xs \<and> (u, Loaded) \<notin> set xs)"
  by (induction xs rule: no_revisit.induct) (auto simp: image_iff)

lemma frontier_inv_step:
  assumes "frontier_inv s"
  shows "frontier_inv (crawl_step netloc base_domain p s)"
proof (cases "queue s")
  case Nil
  then show ?thesis using assms by (simp add: crawl_step_empty)
next
  case (Cons url rest)
  let ?s' = "crawl_step netloc base_domain p s"
  from assms Cons have nv: "url \<notin> visited_pages s" and nr: "url \<notin> set rest"
    and dr: "distinct rest" and rv: "set rest \<inter> visited_pages s = {}"
    by (auto simp: frontier_inv_def)
  from crawl_step_effect [OF Cons, of netloc base_domain p]
  obtain v new where e:
    "(v = Skipped) = (url \<in> visited_pages s)"
    "dequeued ?s' = dequeued s @ [(url, v)]"
    "visited_pages ?s' = (if v = Loaded then insert url (visited_pages s) else visited_pages s)"
    "queue ?s' = rest @ new" "distinct new" "set new \<inter> visited_pages ?s' = {}"
    "set new \<inter> set rest = {}"
    by blast
  have v: "v \<noteq> Skipped" using e(1) nv by simp
  have "distinct (queue ?s')" using e(4,5,7) dr by auto
  moreover have "set (queue ?s') \<inter> visited_pages ?s' = {}"
    using e(3,4,6) rv nr by auto
  moreover have "visited_pages ?s' = {u. (u, Loaded) \<in> set (dequeued ?s')}"
    using e(2,3) assms by (auto simp: frontier_inv_def)
  moreover have "no_revisit (dequeued ?s')"
    using e(2) assms nv by (auto simp: frontier_inv_def no_revisit_snoc)
  moreover have "Skipped \<notin> snd ` set (dequeued ?s')"
    using e(2) v assms by (auto simp: frontier_inv_def)
  ultimately show ?thesis by (simp add: frontier_inv_def)
qed

lemma successes_append: "successes (xs @ ys) = successes xs @ successes ys"
  by (simp add: successes_def)

lemma successes_tasks:
  "successes (map (\<lambda>t. (t, url, fetch_ok t)) tasks) = map (\<lambda>t. (t, url)) (filter fetch_ok tasks)"
  by (induction tasks) (simp_all add: successes_def)

lemma download_inv_step:
  assumes "download_inv s"
  shows "download_inv (crawl_step netloc base_domain p s)"
proof (cases "queue s")
  case Nil
  then show ?thesis using assms by (simp add: crawl_step_empty)
next
  case (Cons url rest)
  let ?s' = "crawl_step netloc base_domain p s"
  from crawl_step_effect [OF Cons, of netloc base_domain p]
  obtain fetch_ok tasks where e:
    "distinct tasks" "set tasks \<inter> downloaded_pdf_urls s = {}"
    "downloaded_pdf_urls ?s' = downloaded_pdf_urls s \<union> set tasks"
    "fetched ?s' = fetched s @ map (\<lambda>t. (t, url, fetch_ok t)) tasks"
    "download_log ?s' = download_log s @ map (\<lambda>t. (t, url)) (filter fetch_ok tasks)"
    by blast
  have m: "map fst (map (\<lambda>t. (t, url, fetch_ok t)) tasks) = tasks"
    by (induction tasks) simp_all
  have "distinct (map fst (fetched ?s'))"
    using e(1,2,4) assms m by (auto simp: download_inv_def)
  moreover have "fst ` set (fetched ?s') = downloaded_pdf_urls ?s'"
    using e(3,4) assms by (auto simp: download_inv_def image_Un image_image)
  moreover have "download_log ?s' = successes (fetched ?s')"
    using e(4,5) assms by (simp add: download_inv_def successes_append successes_tasks)
  ultimately show ?thesis by (simp add: download_inv_def)
qed

lemma crawl_snoc:
  "crawl netloc base_domain (pages @ [p]) =
     crawl_step netloc base_domain p (crawl netloc base_domain pages)"
  by (simp add: crawl_def)

lemma frontier_inv_crawl: "frontier_inv (crawl netloc base_domain pages)"
proof (induction pages rule: rev_induct)
  case Nil
  show ?case by (simp add: crawl_def initial_state_def frontier_inv_def)
next
  case (snoc p pages)
  then show ?case by (simp only: crawl_snoc frontier_inv_step)
qed

lemma download_inv_crawl: "download_inv (crawl netloc base_domain pages)"
proof (induction pages rule: rev_induct)
  case Nil
  show ?case by (simp add: crawl_def initial_state_def download_inv_def successes_def)
next
  case (snoc p pages)
  then show ?case by (simp only: crawl_snoc download_inv_step)
qed

lemma successes_count:
  "distinct (map fst fs) \<Longrightarrow>
   length (filter (\<lambda>r. fst r = u) (successes fs)) =
     (if \<exists>src. (u, src, True) \<in> set fs then 1 else 0)"
proof (induction fs)
  case Nil
  then show ?case by (simp add: successes_def)
next
  case (Cons f fs)
  obtain v src ok where f: "f = (v, src, ok)" by (cases f)
  from Cons.prems have d: "distinct (map fst fs)" and nv: "v \<notin> fst ` set fs"
    by (simp_all add: f)
  have sc: "successes ((v, src, ok) # fs) = (if ok then [(v, src)] else []) @ successes fs"
    by (simp add: successes_def)
  have len: "length (filter (\<lambda>r. fst r = u) (successes (f # fs))) =
      (if ok \<and> v = u then 1 else 0) + length (filter (\<lambda>r. fst r = u) (successes fs))"
    unfolding f sc by simp
  have ex: "(\<exists>src'. (u, src', True) \<in> set (f # fs)) =
      ((ok \<and> v = u) \<or> (\<exists>src'. (u, src', True) \<in> set fs))"
    unfolding f by auto
  have excl: "\<not> (v = u \<and> (\<exists>src'. (u, src', True) \<in> set fs))"
    using nv by force
  show ?case
    unfolding len ex Cons.IH [OF d] using excl by auto
qed

text \<open>
  C1, as the code has it. In every state the loop reaches, the queue holds no URL twice
  and none that is in the visited set. An iteration takes the URL at the head of the
  queue, and what it enqueues goes to the end of the queue and was in neither the queue
  nor the visited set, so URLs leave the queue in the order they entered it. A URL that
  was loaded and marked visited is never dequeued again, and the \<^verbatim>\<open>continue\<close> branch
  is never taken. A URL whose navigation raised is not marked visited and can be
  enqueued and dequeued again.
\<close>

theorem frontier_invariant_fifo:
  fixes netloc :: "string \<Rightarrow> py_exception + string" and base_domain :: string
    and pages :: "page list" and p :: page
  defines "s \<equiv> crawl netloc base_domain pages"
    and "s' \<equiv> crawl netloc base_domain (pages @ [p])"
  shows "distinct (queue s) \<and> set (queue s) \<inter> visited_pages s = {} \<and>
     (\<forall>url rest. queue s = url # rest \<longrightarrow>
        (\<exists>v new. v \<noteq> Skipped \<and> dequeued s' = dequeued s @ [(url, v)] \<and>
           queue s' = rest @ new \<and> distinct new \<and>
           set new \<inter> visited_pages s' = {} \<and> set new \<inter> set rest = {})) \<and>
     prefix (map fst (dequeued s) @ queue s) (map fst (dequeued s') @ queue s') \<and>
     visited_pages s = {u. (u, Loaded) \<in> set (dequeued s)} \<and>
     no_revisit (dequeued s)"
proof -
  have inv: "frontier_inv s" unfolding s_def by (rule frontier_inv_crawl)
  have s': "s' = crawl_step netloc base_domain p s"
    unfolding s_def s'_def by (rule crawl_snoc)
  have step: "\<exists>v new. v \<noteq> Skipped \<and> dequeued s' = dequeued s @ [(url, v)] \<and>
           queue s' = rest @ new \<and> distinct new \<and>
           set new \<inter> visited_pages s' = {} \<and> set new \<inter> set rest = {}"
    if q: "queue s = url # rest" for url rest
  proof -
    have nv: "url \<notin> visited_pages s" using inv q by (auto simp: frontier_inv_def)
    from crawl_step_effect [OF q, of netloc base_domain p]
    obtain v new where e:
      "(v = Skipped) = (url \<in> visited_pages s)"
      "dequeued s' = dequeued s @ [(url, v)]"
      "queue s' = rest @ new" "distinct new" "set new \<inter> visited_pages s' = {}"
      "set new \<inter> set rest = {}"
      unfolding s' by blast
    from e(1) nv have "v \<noteq> Skipped" by simp
    with e show ?thesis by blast
  qed
  have pre: "prefix (map fst (dequeued s) @ queue s) (map fst (dequeued s') @ queue s')"
  proof (cases "queue s")
    case Nil
    then show ?thesis by (simp add: s' crawl_step_empty)
  next
    case (Cons url rest)
    from step [OF Cons] obtain v new where
      "dequeued s' = dequeued s @ [(url, v)]" "queue s' = rest @ new"
      by blast
    then show ?thesis using Cons by simp
  qed
  from inv have "distinct (queue s)" "set (queue s) \<inter> visited_pages s = {}"
    "visited_pages s = {u. (u, Loaded) \<in> set (dequeued s)}" "no_revisit (dequeued s)"
    unfolding frontier_inv_def by blast+
  with step pre show ?thesis by blast
qed

text \<open>
  The run of \<open>revisit_pages\<close> and one more page: the queue holds \<open>/b\<close>, which is taken and
  loaded.
\<close>

theorem frontier_invariant_fifo_witness:
  "queue (crawl netloc_plain ''www.govinfo.gov'' revisit_pages) = [''https://www.govinfo.gov/b''] \<and>
   visited_pages (crawl netloc_plain ''www.govinfo.gov'' revisit_pages) =
     {''https://www.govinfo.gov/c'', START_URL} \<and>
   (\<exists>v new. v \<noteq> Skipped \<and>
      dequeued (crawl netloc_plain ''www.govinfo.gov'' (revisit_pages @ [Page [] (\<lambda>u. True) []])) =
        dequeued (crawl netloc_plain ''www.govinfo.gov'' revisit_pages) @
          [(''https://www.govinfo.gov/b'', v)] \<and>
      queue (crawl netloc_plain ''www.govinfo.gov'' (revisit_pages @ [Page [] (\<lambda>u. True) []])) = [] @ new) \<and>
   no_revisit (dequeued (crawl netloc_plain ''www.govinfo.gov'' revisit_pages))"
proof -
  have q: "queue (crawl netloc_plain ''www.govinfo.gov'' revisit_pages) =
      [''https://www.govinfo.gov/b'']"
    by code_simp
  have v: "visited_pages (crawl netloc_plain ''www.govinfo.gov'' revisit_pages) =
      {''https://www.govinfo.gov/c'', START_URL}"
    by code_simp
  from frontier_invariant_fifo [of netloc_plain "''www.govinfo.gov''" revisit_pages
      "Page [] (\<lambda>u. True) []"] q v
  show ?thesis by blast
qed

text \<open>
  C1 as stated fails: in the run of \<open>revisit_pages\<close> and one more page, \<open>/b\<close> is taken
  from the queue twice and \<^verbatim>\<open>driver.get\<close> is called on it twice, since the first
  navigation raised before the URL was marked visited.
\<close>

theorem url_dequeued_twice_counterexample:
  "dequeued (crawl netloc_plain ''www.govinfo.gov'' (revisit_pages @ [Page [] (\<lambda>u. True) []])) =
     [(START_URL, Loaded), (''https://www.govinfo.gov/b'', Failed),
      (''https://www.govinfo.gov/c'', Loaded), (''https://www.govinfo.gov/b'', Loaded)] \<and>
   \<not> distinct (map fst
     (dequeued (crawl netloc_plain ''www.govinfo.gov'' (revisit_pages @ [Page [] (\<lambda>u. True) []]))))"
  by (simp add: crawl_def crawl_step_def process_page_def revisit_pages_def initial_state_def
      START_URL_def netloc_plain_def gather_def Let_def)

text \<open>
  C2, as the code has it. The audit log gets a line \<^verbatim>\<open>PDF_URL,SOURCE_URL\<close> for a
  download that succeeds and nothing for one that fails; a line has no outcome field.
  No URL is fetched twice in a run, so a document URL has exactly one line when its
  download succeeded and none when it failed. An iteration only appends to the log.
\<close>

theorem audit_record_iff_success:
  fixes netloc :: "string \<Rightarrow> py_exception + string" and base_domain :: string
    and pages :: "page list" and p :: page and u :: string
  defines "s \<equiv> crawl netloc base_domain pages"
  shows "download_log s = successes (fetched s) \<and>
     distinct (map fst (fetched s)) \<and>
     length (filter (\<lambda>r. fst r = u) (download_log s)) =
       (if \<exists>src. (u, src, True) \<in> set (fetched s) then 1 else 0) \<and>
     prefix (download_log s) (download_log (crawl_step netloc base_domain p s))"
proof -
  have inv: "download_inv s" unfolding s_def by (rule download_inv_crawl)
  then have l: "download_log s = successes (fetched s)" and d: "distinct (map fst (fetched s))"
    by (simp_all add: download_inv_def)
  have pre: "prefix (download_log s) (download_log (crawl_step netloc base_domain p s))"
  proof (cases "queue s")
    case Nil
    then show ?thesis by (simp add: crawl_step_empty)
  next
    case (Cons url rest)
    from crawl_step_effect [OF Cons, of netloc base_domain p]
    obtain fetch_ok tasks where
      "download_log (crawl_step netloc base_domain p s) =
         download_log s @ map (\<lambda>t. (t, url)) (filter fetch_ok tasks)"
      by blast
    then show ?thesis by simp
  qed
  from l d pre successes_count [OF d, of u] show ?thesis by simp
qed

text \<open>
  The run of \<open>pdf_pages\<close>: \<open>a.pdf\<close> was fetched and has its line, \<open>x.pdf\<close> failed and has
  none.
\<close>

theorem audit_record_iff_success_witness:
  "fetched (crawl netloc_plain ''www.govinfo.gov'' pdf_pages) =
     [(''https://www.govinfo.gov/a.pdf'', START_URL, True),
      (''https://www.govinfo.gov/x.pdf'', START_URL, False)] \<and>
   download_log (crawl netloc_plain ''www.govinfo.gov'' pdf_pages) =
     [(''https://www.govinfo.gov/a.pdf'', START_URL)] \<and>
   length (filter (\<lambda>r. fst r = ''https://www.govinfo.gov/a.pdf'')
     (download_log (crawl netloc_plain ''www.govinfo.gov'' pdf_pages))) = 1 \<and>
   length (filter (\<lambda>r. fst r = ''https://www.govinfo.gov/x.pdf'')
     (download_log (crawl netloc_plain ''www.govinfo.gov'' pdf_pages))) = 0"
proof -
  have f: "fetched (crawl netloc_plain ''www.govinfo.gov'' pdf_pages) =
     [(''https://www.govinfo.gov/a.pdf'', START_URL, True),
      (''https://www.govinfo.gov/x.pdf'', START_URL, False)]"
    by code_simp
  from audit_record_iff_success [of netloc_plain "''www.govinfo.gov''" pdf_pages
      "''https://www.govinfo.gov/a.pdf''" PageError]
    audit_record_iff_success [of netloc_plain "''www.govinfo.gov''" pdf_pages
      "''https://www.govinfo.gov/x.pdf''" PageError] f
  show ?thesis by (simp add: successes_def)
qed

text \<open>
  C2 as stated fails: in the run of \<open>pdf_pages\<close> the download of \<open>x.pdf\<close> was attempted
  and failed, and the log has no line for it.
\<close>

theorem failed_download_counterexample:
  "(''https://www.govinfo.gov/x.pdf'', START_URL, False)
     \<in> set (fetched (crawl netloc_plain ''www.govinfo.gov'' pdf_pages)) \<and>
   ''https://www.govinfo.gov/x.pdf''
     \<notin> fst ` set (download_log (crawl netloc_plain ''www.govinfo.gov'' pdf_pages))"
  by (simp add: crawl_def crawl_step_def process_page_def pdf_pages_def initial_state_def
      START_URL_def netloc_plain_def gather_def download_pdf_concurrently_def Let_def)

lemma download_tasks_exact:
  "\<exists>new. download_tasks links downloaded tasks = (downloaded \<union> set links, tasks @ new) \<and>
         distinct new \<and> set new = set links - downloaded"
proof (induction links arbitrary: downloaded tasks)
  case Nil
  then show ?case by simp
next
  case (Cons pdf_url rest)
  show ?case
  proof (cases "pdf_url \<in> downloaded")
    case True
    from Cons [of downloaded tasks] obtain new where n:
      "download_tasks rest downloaded tasks = (downloaded \<union> set rest, tasks @ new)"
      "distinct new" "set new = set rest - downloaded"
      by blast
    have "download_tasks (pdf_url # rest) downloaded tasks =
            (downloaded \<union> set (pdf_url # rest), tasks @ new)"
      using True n(1) by (simp add: insert_absorb)
    moreover have "set new = set (pdf_url # rest) - downloaded" using True n(3) by auto
    ultimately show ?thesis using n(2) by blast
  next
    case False
    from Cons [of "insert pdf_url downloaded" "tasks @ [pdf_url]"]
    obtain new where n:
      "download_tasks rest (insert pdf_url downloaded) (tasks @ [pdf_url]) =
         (insert pdf_url downloaded \<union> set rest, (tasks @ [pdf_url]) @ new)"
      "distinct new" "set new = set rest - insert pdf_url downloaded"
      by blast
    have "download_tasks (pdf_url # rest) downloaded tasks =
            (downloaded \<union> set (pdf_url # rest), tasks @ pdf_url # new)"
      using False n(1) by simp
    moreover have "distinct (pdf_url # new)" using n(2,3) by auto
    moreover have "set (pdf_url # new) = set (pdf_url # rest) - downloaded"
      using False n(3) by auto
    ultimately show ?thesis by blast
  qed
qed

lemma pdf_links_set:
  "set (pdf_links pdf_hrefs pdf_links_on_page) =
     set pdf_links_on_page \<union> {h. Some h \<in> set pdf_hrefs \<and> h \<noteq> []}"
  by (induction pdf_hrefs pdf_links_on_page rule: pdf_links.induct) auto

lemma process_page_downloads:
  "\<exists>tasks.
     distinct tasks \<and>
     set tasks = {h. Some h \<in> set pdf_hrefs \<and> h \<noteq> []} - downloaded_pdf_urls s \<and>
     downloaded_pdf_urls (process_page netloc base_domain url pdf_hrefs fetch_ok links s) =
       downloaded_pdf_urls s \<union> {h. Some h \<in> set pdf_hrefs \<and> h \<noteq> []} \<and>
     fetched (process_page netloc base_domain url pdf_hrefs fetch_ok links s) =
       fetched s @ map (\<lambda>t. (t, url, fetch_ok t)) tasks \<and>
     download_log (process_page netloc base_domain url pdf_hrefs fetch_ok links s) =
       download_log s @ map (\<lambda>t. (t, url)) (filter fetch_ok tasks)"
proof -
  obtain tasks where t:
    "download_tasks (pdf_links pdf_hrefs []) (downloaded_pdf_urls s) [] =
       (downloaded_pdf_urls s \<union> set (pdf_links pdf_hrefs []), [] @ tasks)"
    "distinct tasks" "set tasks = set (pdf_links pdf_hrefs []) - downloaded_pdf_urls s"
    using download_tasks_exact [of "pdf_links pdf_hrefs []" "downloaded_pdf_urls s" "[]"]
    by blast
  show ?thesis
    apply (rule exI [of _ tasks])
    using t
    apply (simp add: process_page_def Let_def gather_fetched gather_download_log gather_other
        pdf_links_set)
    done
qed

lemma crawl_step_page_downloads:
  assumes "queue s = url # rest" "url \<notin> visited_pages s"
  shows "\<exists>tasks.
     distinct tasks \<and>
     set tasks = {h. Some h \<in> set pdf_hrefs \<and> h \<noteq> []} - downloaded_pdf_urls s \<and>
     downloaded_pdf_urls (crawl_step netloc base_domain (Page pdf_hrefs fetch_ok links) s) =
       downloaded_pdf_urls s \<union> {h. Some h \<in> set pdf_hrefs \<and> h \<noteq> []} \<and>
     fetched (crawl_step netloc base_domain (Page pdf_hrefs fetch_ok links) s) =
       fetched s @ map (\<lambda>t. (t, url, fetch_ok t)) tasks \<and>
     download_log (crawl_step netloc base_domain (Page pdf_hrefs fetch_ok links) s) =
       download_log s @ map (\<lambda>t. (t, url)) (filter fetch_ok tasks)"
proof -
  let ?s1 = "s\<lparr>queue := rest, dequeued := dequeued s @ [(url, Loaded)],
                visited_pages := insert url (visited_pages s)\<rparr>"
  have step: "crawl_step netloc base_domain (Page pdf_hrefs fetch_ok links) s =
                process_page netloc base_domain url pdf_hrefs fetch_ok links ?s1"
    using assms by (simp add: crawl_step_def)
  from process_page_downloads [of pdf_hrefs ?s1 netloc base_domain url fetch_ok links]
  show ?thesis by (simp add: step)
qed

lemma fetched_once:
  "distinct (map fst fs) \<Longrightarrow> u \<in> fst ` set fs \<Longrightarrow>
   length (filter (\<lambda>f. fst f = u) fs) = 1"
proof (induction fs)
  case Nil
  then show ?case by simp
next
  case (Cons f fs)
  show ?case
  proof (cases "fst f = u")
    case True
    then have "u \<notin> fst ` set fs" using Cons.prems(1) by auto
    then have "filter (\<lambda>f. fst f = u) fs = []" by (auto simp: filter_empty_conv)
    then show ?thesis using True by simp
  next
    case False
    then have "u \<in> fst ` set fs" using Cons.prems(2) by auto
    with Cons.IH Cons.prems(1) False show ?thesis by simp
  qed
qed

text \<open>
  C9. In every state the loop reaches, no document URL has been fetched twice, and the
  URLs fetched are the members of the downloaded set. The dispatch loop makes a task
  for exactly the links of the page that are not in the set, each once, and puts them
  into the set; the tasks run only after it. So when a page that loads shows a
  document URL, the URL is in the set afterwards and has been fetched exactly once in
  the run: by this iteration when it was not in the set before, and by no fetch of
  this iteration, and no new log record, when it was. Whatever the iteration meets, it
  fetches and logs only URLs that were not in the set before it.
\<close>

theorem download_dedup:
  fixes netloc :: "string \<Rightarrow> py_exception + string" and base_domain :: string
    and pages :: "page list" and p :: page and pdf_links_on_page :: "string list"
    and pdf_hrefs :: "string option list" and fetch_ok :: "string \<Rightarrow> bool"
    and links :: "link list"
  defines "s \<equiv> crawl netloc base_domain pages"
    and "s' \<equiv> crawl netloc base_domain (pages @ [p])"
    and "t \<equiv> crawl netloc base_domain (pages @ [Page pdf_hrefs fetch_ok links])"
    and "shown \<equiv> {h. Some h \<in> set pdf_hrefs \<and> h \<noteq> []}"
  shows "distinct (map fst (fetched s)) \<and>
     fst ` set (fetched s) = downloaded_pdf_urls s \<and>
     (\<exists>tasks. download_tasks pdf_links_on_page (downloaded_pdf_urls s) [] =
                (downloaded_pdf_urls s \<union> set pdf_links_on_page, tasks) \<and>
             distinct tasks \<and> set tasks = set pdf_links_on_page - downloaded_pdf_urls s) \<and>
     (\<forall>url rest. queue s = url # rest \<longrightarrow>
        (\<exists>tasks. distinct tasks \<and> set tasks = shown - downloaded_pdf_urls s \<and>
           fetched t = fetched s @ map (\<lambda>u. (u, url, fetch_ok u)) tasks \<and>
           download_log t = download_log s @ map (\<lambda>u. (u, url)) (filter fetch_ok tasks) \<and>
           downloaded_pdf_urls t = downloaded_pdf_urls s \<union> shown) \<and>
        (\<forall>u\<in>shown. u \<in> downloaded_pdf_urls t \<and>
           length (filter (\<lambda>f. fst f = u) (fetched t)) = 1)) \<and>
     (\<exists>new. fetched s' = fetched s @ new \<and> distinct (map fst new) \<and>
            fst ` set new \<inter> downloaded_pdf_urls s = {} \<and>
            downloaded_pdf_urls s' = downloaded_pdf_urls s \<union> fst ` set new \<and>
            download_log s' = download_log s @ successes new)"
proof -
  have inv: "download_inv s" unfolding s_def by (rule download_inv_crawl)
  have inv_t: "download_inv t" unfolding t_def by (rule download_inv_crawl)
  have finv: "frontier_inv s" unfolding s_def by (rule frontier_inv_crawl)
  have s': "s' = crawl_step netloc base_domain p s"
    unfolding s_def s'_def by (rule crawl_snoc)
  have t: "t = crawl_step netloc base_domain (Page pdf_hrefs fetch_ok links) s"
    unfolding s_def t_def by (rule crawl_snoc)
  have tasks: "\<exists>tasks. download_tasks pdf_links_on_page (downloaded_pdf_urls s) [] =
                (downloaded_pdf_urls s \<union> set pdf_links_on_page, tasks) \<and>
             distinct tasks \<and> set tasks = set pdf_links_on_page - downloaded_pdf_urls s"
    using download_tasks_exact [of pdf_links_on_page "downloaded_pdf_urls s" "[]"] by auto
  have page: "(\<exists>tasks. distinct tasks \<and> set tasks = shown - downloaded_pdf_urls s \<and>
           fetched t = fetched s @ map (\<lambda>u. (u, url, fetch_ok u)) tasks \<and>
           download_log t = download_log s @ map (\<lambda>u. (u, url)) (filter fetch_ok tasks) \<and>
           downloaded_pdf_urls t = downloaded_pdf_urls s \<union> shown) \<and>
        (\<forall>u\<in>shown. u \<in> downloaded_pdf_urls t \<and>
           length (filter (\<lambda>f. fst f = u) (fetched t)) = 1)"
    if q: "queue s = url # rest" for url rest
  proof -
    have nv: "url \<notin> visited_pages s" using finv q by (auto simp: frontier_inv_def)
    from crawl_step_page_downloads [OF q nv, of pdf_hrefs netloc base_domain fetch_ok links]
    obtain tasks where e:
      "distinct tasks" "set tasks = shown - downloaded_pdf_urls s"
      "downloaded_pdf_urls t = downloaded_pdf_urls s \<union> shown"
      "fetched t = fetched s @ map (\<lambda>u. (u, url, fetch_ok u)) tasks"
      "download_log t = download_log s @ map (\<lambda>u. (u, url)) (filter fetch_ok tasks)"
      unfolding t shown_def by blast
    have once: "u \<in> downloaded_pdf_urls t \<and> length (filter (\<lambda>f. fst f = u) (fetched t)) = 1"
      if "u \<in> shown" for u
    proof -
      have m: "u \<in> downloaded_pdf_urls t" using that e(3) by simp
      from inv_t have "distinct (map fst (fetched t))"
        and "fst ` set (fetched t) = downloaded_pdf_urls t"
        by (simp_all add: download_inv_def)
      with m fetched_once [of "fetched t" u] show ?thesis by simp
    qed
    from e once show ?thesis by blast
  qed
  have new: "\<exists>new. fetched s' = fetched s @ new \<and> distinct (map fst new) \<and>
            fst ` set new \<inter> downloaded_pdf_urls s = {} \<and>
            downloaded_pdf_urls s' = downloaded_pdf_urls s \<union> fst ` set new \<and>
            download_log s' = download_log s @ successes new"
  proof (cases "queue s")
    case Nil
    then have "s' = s" by (simp add: s' crawl_step_empty)
    then show ?thesis by (intro exI [of _ "[]"]) (simp add: successes_def)
  next
    case (Cons url rest)
    from crawl_step_effect [OF Cons, of netloc base_domain p]
    obtain fetch_ok' tasks where e:
      "distinct tasks" "set tasks \<inter> downloaded_pdf_urls s = {}"
      "downloaded_pdf_urls s' = downloaded_pdf_urls s \<union> set tasks"
      "fetched s' = fetched s @ map (\<lambda>t. (t, url, fetch_ok' t)) tasks"
      "download_log s' = download_log s @ map (\<lambda>t. (t, url)) (filter fetch_ok' tasks)"
      unfolding s' by blast
    have m: "map fst (map (\<lambda>t. (t, url, fetch_ok' t)) tasks) = tasks"
      by (induction tasks) simp_all
    then have i: "fst ` set (map (\<lambda>t. (t, url, fetch_ok' t)) tasks) = set tasks"
      by (metis set_map)
    show ?thesis
      apply (rule exI [of _ "map (\<lambda>t. (t, url, fetch_ok' t)) tasks"])
      using e m i apply (simp add: successes_tasks)
      done
  qed
  from inv have "distinct (map fst (fetched s))"
    "fst ` set (fetched s) = downloaded_pdf_urls s"
    by (simp_all add: download_inv_def)
  with tasks page new show ?thesis by blast
qed

text \<open>
  The run of \<open>pdf_pages\<close>. The first page shows \<open>a.pdf\<close> and \<open>x.pdf\<close>: both are fetched,
  once each, and are in the set. The second page shows them again: nothing is fetched
  for it, and each has still been fetched once.
\<close>

theorem download_dedup_witness:
  "queue (crawl netloc_plain ''www.govinfo.gov'' []) = [START_URL] \<and>
   fetched (crawl netloc_plain ''www.govinfo.gov'' [hd pdf_pages]) =
     [(''https://www.govinfo.gov/a.pdf'', START_URL, True),
      (''https://www.govinfo.gov/x.pdf'', START_URL, False)] \<and>
   downloaded_pdf_urls (crawl netloc_plain ''www.govinfo.gov'' [hd pdf_pages]) =
     {''https://www.govinfo.gov/a.pdf'', ''https://www.govinfo.gov/x.pdf''} \<and>
   queue (crawl netloc_plain ''www.govinfo.gov'' [hd pdf_pages]) =
     [''https://www.govinfo.gov/b'', ''https://www.govinfo.gov/a.pdf''] \<and>
   fetched (crawl netloc_plain ''www.govinfo.gov'' pdf_pages) =
     fetched (crawl netloc_plain ''www.govinfo.gov'' [hd pdf_pages]) \<and>
   length (filter (\<lambda>f. fst f = ''https://www.govinfo.gov/a.pdf'')
     (fetched (crawl netloc_plain ''www.govinfo.gov'' pdf_pages))) = 1 \<and>
   length (filter (\<lambda>f. fst f = ''https://www.govinfo.gov/x.pdf'')
     (fetched (crawl netloc_plain ''www.govinfo.gov'' pdf_pages))) = 1"
proof -
  let ?h1 = "[Some ''https://www.govinfo.gov/a.pdf'', Some ''https://www.govinfo.gov/x.pdf'']"
  let ?ok1 = "\<lambda>u. u \<noteq> ''https://www.govinfo.gov/x.pdf''"
  let ?l1 = "[Href (Some ''https://www.govinfo.gov/b''), Href (Some ''https://www.govinfo.gov/a.pdf'')]"
  let ?h2 = "[Some ''https://www.govinfo.gov/x.pdf'', Some ''https://www.govinfo.gov/a.pdf'']"
  let ?ok2 = "\<lambda>u::string. True"
  let ?c = "crawl netloc_plain ''www.govinfo.gov''"
  have p1: "[] @ [Page ?h1 ?ok1 ?l1] = [hd pdf_pages]"
    and p2: "[hd pdf_pages] @ [Page ?h2 ?ok2 []] = pdf_pages"
    by (simp_all add: pdf_pages_def)
  have q0: "queue (?c []) = [START_URL]"
    by (simp add: crawl_def initial_state_def)
  have f0: "fetched (?c []) = []" "downloaded_pdf_urls (?c []) = {}"
    by (simp_all add: crawl_def initial_state_def)
  have q1: "queue (?c [hd pdf_pages]) =
      [''https://www.govinfo.gov/b'', ''https://www.govinfo.gov/a.pdf'']"
    by code_simp
  note w1 = download_dedup [where netloc = netloc_plain and base_domain = "''www.govinfo.gov''"
      and pages = "[]" and pdf_hrefs = ?h1 and fetch_ok = ?ok1 and links = ?l1,
      THEN conjunct2, THEN conjunct2, THEN conjunct2, THEN conjunct1, rule_format,
      OF q0, THEN conjunct1, unfolded p1]
  note w2 = download_dedup [where netloc = netloc_plain and base_domain = "''www.govinfo.gov''"
      and pages = "[hd pdf_pages]" and pdf_hrefs = ?h2 and fetch_ok = ?ok2 and links = "[]",
      THEN conjunct2, THEN conjunct2, THEN conjunct2, THEN conjunct1, rule_format,
      OF q1, THEN conjunct1, unfolded p2]
  from w1 obtain tasks1 where t1:
    "downloaded_pdf_urls (?c [hd pdf_pages]) =
       downloaded_pdf_urls (?c []) \<union> {h. Some h \<in> set ?h1 \<and> h \<noteq> []}"
    by (elim exE conjE)
  have d1: "downloaded_pdf_urls (?c [hd pdf_pages]) =
     {''https://www.govinfo.gov/a.pdf'', ''https://www.govinfo.gov/x.pdf''}"
    unfolding t1 f0 by auto
  have f1: "fetched (?c [hd pdf_pages]) =
     [(''https://www.govinfo.gov/a.pdf'', START_URL, True),
      (''https://www.govinfo.gov/x.pdf'', START_URL, False)]"
    by code_simp
  from w2 obtain tasks2 where t2:
    "set tasks2 = {h. Some h \<in> set ?h2 \<and> h \<noteq> []} - downloaded_pdf_urls (?c [hd pdf_pages])"
    "fetched (?c pdf_pages) = fetched (?c [hd pdf_pages]) @
       map (\<lambda>u. (u, ''https://www.govinfo.gov/b'', ?ok2 u)) tasks2"
    by (elim exE conjE)
  have "set tasks2 = {}" unfolding t2(1) d1 by auto
  then have f2: "fetched (?c pdf_pages) = fetched (?c [hd pdf_pages])"
    using t2(2) by simp
  from q0 f1 d1 q1 f2 show ?thesis by simp
qed

text \<open>
  What the link loop does test: a URL it enqueues is not empty, starts with \<open>http\<close>,
  has the base domain as its network location, and was not visited.
\<close>

lemma enqueue_links_scoped:
  "set (enqueue_links netloc base_domain links visited q) \<subseteq>
     set q \<union> {h. h \<noteq> [] \<and> prefix ''http'' h \<and> netloc h = Inr base_domain \<and> h \<notin> visited}"
  by (induction netloc base_domain links visited q rule: enqueue_links.induct)
     (auto split: sum.splits if_splits)

text \<open>
  C5. The link loop of scraper-agent.py has no test of the extension, which the link
  loops of the two other scripts have: in the run of the first page of \<open>pdf_pages\<close>, the
  link to \<open>a.pdf\<close> on the base domain is fetched as a document and is also put on the
  crawl queue.
\<close>

theorem pdf_link_enqueued:
  "queue (crawl netloc_plain ''www.govinfo.gov'' [hd pdf_pages]) =
     [''https://www.govinfo.gov/b'', ''https://www.govinfo.gov/a.pdf''] \<and>
   ''https://www.govinfo.gov/a.pdf''
     \<in> downloaded_pdf_urls (crawl netloc_plain ''www.govinfo.gov'' [hd pdf_pages]) \<and>
   netloc_plain START_URL = Inr ''www.govinfo.gov''"
  by (simp add: crawl_def crawl_step_def process_page_def pdf_pages_def initial_state_def
      START_URL_def netloc_plain_def gather_def download_pdf_concurrently_def Let_def)


end
